theory Spec2Isabelle
  imports Main "HOL-Library.Word"
begin

unbundle bit_operations_syntax

section \<open>Data model of NN\_Key.h\<close>

text \<open>
  The two enumerations of the header. The struct stores both in 3-bit bit-fields:
  \<open>KEY_STATE_UNKNOWN\<close> stands for the two bit patterns (6 and 7) of the state field
  that name no enumerator and that the \<open>default\<close> branch of the state machine handles;
  \<open>KEY_EVENT_MAX\<close> (7) is the bound the callback functions compare against.
\<close>

datatype nn_key_state_t =
    KEY_STATE_INIT
  | KEY_STATE_RELEASED
  | KEY_STATE_PRESSED
  | KEY_STATE_LONG_PRESSED
  | KEY_STATE_LONG_PRESSED_ALWS
  | KEY_STATE_MULTI_PRESSED
  | KEY_STATE_UNKNOWN

datatype nn_key_event_t =
    KEY_EVENT_INIT
  | KEY_EVENT_PRESSED
  | KEY_EVENT_LONG_PRESSED
  | KEY_EVENT_LONG_PRESSED_ALWS
  | KEY_EVENT_DOUBLE_PRESSED
  | KEY_EVENT_TRIPLE_PRESSED
  | KEY_EVENT_MULTI_PRESSED
  | KEY_EVENT_MAX

text \<open>The numeric value of an event, used as array index and as shift amount.\<close>

fun event_nr :: "nn_key_event_t \<Rightarrow> nat" where
  "event_nr KEY_EVENT_INIT = 0"
| "event_nr KEY_EVENT_PRESSED = 1"
| "event_nr KEY_EVENT_LONG_PRESSED = 2"
| "event_nr KEY_EVENT_LONG_PRESSED_ALWS = 3"
| "event_nr KEY_EVENT_DOUBLE_PRESSED = 4"
| "event_nr KEY_EVENT_TRIPLE_PRESSED = 5"
| "event_nr KEY_EVENT_MULTI_PRESSED = 6"
| "event_nr KEY_EVENT_MAX = 7"

text \<open>
  Pointers are addresses (\<open>nat\<close>); a pointer argument that may be \<open>NULL\<close> is an
  \<open>option\<close>. Function pointers (read functions, callbacks) and the opaque user data
  are identifiers.
\<close>

type_synonym key_ptr = nat
type_synonym comb_ptr = nat
type_synonym fn_ptr = nat
type_synonym tick_t = "32 word"

record nn_key_callback_item_t =
  func :: "fn_ptr option"
  user_data :: "nat option"

record nn_key_t =
  key_id :: string
  key_read :: "fn_ptr option"
  key_last_time :: "32 word"
  debounce_time :: "16 word"
  long_time :: "16 word"
  long_alws_time :: "16 word"
  multi_time :: "16 word"
  state :: nn_key_state_t
  event :: nn_key_event_t
  is_member :: bool
  lock_flag :: bool
  multi_max :: "4 word"
  multi_count :: "4 word"
  callback_mask :: "8 word"
  callbacks :: "nn_key_event_t \<Rightarrow> nn_key_callback_item_t"

definition KEY_DEBOUNCE_TIME :: "16 word" where "KEY_DEBOUNCE_TIME = 20"
definition KEY_LONG_PRESS_TIME :: "16 word" where "KEY_LONG_PRESS_TIME = 500"
definition KEY_LONG_PRESS_ALWS :: "16 word" where "KEY_LONG_PRESS_ALWS = 1500"
definition KEY_MULTI_PRESS_TIME :: "16 word" where "KEY_MULTI_PRESS_TIME = 300"
definition KEY_LONG_PRESS_ALWS_CB :: "32 word" where "KEY_LONG_PRESS_ALWS_CB = 50"
definition KEY_COMBO_WINDOW :: "16 word" where "KEY_COMBO_WINDOW = 300"
definition KEY_MAX_KEY_NUMBER :: nat where "KEY_MAX_KEY_NUMBER = 20"
definition KEY_MAX_COMBO_NUMBER :: nat where "KEY_MAX_COMBO_NUMBER = 20"
definition KEY_MAX_COMBO_MEMBER :: nat where "KEY_MAX_COMBO_MEMBER = 4"

section \<open>The key state machine\<close>

text \<open>
  The assignments of \<open>NN_Key_Init\<close>: every field of the struct is overwritten, so
  the result does not depend on the previous contents of the memory.
\<close>

definition no_callback :: nn_key_callback_item_t where
  "no_callback = \<lparr>func = None, user_data = None\<rparr>"

definition fresh_key :: "string \<Rightarrow> fn_ptr option \<Rightarrow> nn_key_t" where
  "fresh_key name pfunc =
     \<lparr>key_id = name, key_read = pfunc, key_last_time = 0,
      debounce_time = KEY_DEBOUNCE_TIME, long_time = KEY_LONG_PRESS_TIME,
      long_alws_time = KEY_LONG_PRESS_ALWS, multi_time = KEY_MULTI_PRESS_TIME,
      state = KEY_STATE_INIT, event = KEY_EVENT_INIT,
      is_member = False, lock_flag = False,
      multi_max = 4, multi_count = 0,
      callback_mask = 0, callbacks = (\<lambda>_. no_callback)\<rparr>"

text \<open>
  The assignments of \<open>NN_Key_SetPara\<close>; a zero argument leaves the parameter as it
  is, and \<open>multi_max\<close> is clamped to the 4-bit field.
\<close>

definition set_para ::
  "16 word \<Rightarrow> 16 word \<Rightarrow> 16 word \<Rightarrow> 16 word \<Rightarrow> 8 word \<Rightarrow> nn_key_t \<Rightarrow> nn_key_t" where
  "set_para db lt lat mt mm key =
     (let k1 = (if db \<noteq> 0 then key\<lparr>debounce_time := db\<rparr> else key);
          k2 = (if lt \<noteq> 0 then k1\<lparr>long_time := lt\<rparr> else k1);
          k3 = (if lat \<noteq> 0 then k2\<lparr>long_alws_time := lat\<rparr> else k2);
          k4 = (if mt \<noteq> 0 then k3\<lparr>multi_time := mt\<rparr> else k3)
      in if mm \<noteq> 0 then k4\<lparr>multi_max := (if mm > 15 then 15 else ucast mm)\<rparr> else k4)"

text \<open>
  The \<open>switch\<close> of \<open>_NN_Key_StateMachine\<close>, for a raw reading \<open>key_val\<close>. Time
  differences are unsigned 32-bit subtractions; the 16-bit thresholds are widened for the
  comparison. \<open>multi_count++\<close> acts on a 4-bit field and wraps.
\<close>

definition state_switch :: "nn_key_t \<Rightarrow> 32 word \<Rightarrow> bool \<Rightarrow> nn_key_t" where
  "state_switch key tick key_val =
    (let now_tick = tick;
         diff_tick = now_tick - key_last_time key
     in case state key of
       KEY_STATE_INIT \<Rightarrow>
         if key_val
         then key\<lparr>state := KEY_STATE_PRESSED, key_last_time := now_tick\<rparr>
         else key\<lparr>state := KEY_STATE_RELEASED, key_last_time := now_tick,
                  event := KEY_EVENT_INIT\<rparr>
     | KEY_STATE_RELEASED \<Rightarrow>
         if key_val \<and> diff_tick \<ge> ucast (debounce_time key)
         then key\<lparr>state := KEY_STATE_PRESSED, key_last_time := now_tick,
                  event := KEY_EVENT_INIT\<rparr>
         else if \<not> key_val
         then key\<lparr>state := KEY_STATE_RELEASED\<rparr>
         else key
     | KEY_STATE_PRESSED \<Rightarrow>
         if \<not> key_val
         then (let press_duration = now_tick - key_last_time key
               in if press_duration \<ge> ucast (long_time key)
                  then key\<lparr>event := KEY_EVENT_LONG_PRESSED, state := KEY_STATE_RELEASED,
                           key_last_time := now_tick, multi_count := 0\<rparr>
                  else key\<lparr>state := KEY_STATE_MULTI_PRESSED,
                           multi_count := multi_count key + 1,
                           key_last_time := now_tick\<rparr>)
         else if diff_tick \<ge> ucast (long_time key)
                 \<and> diff_tick < ucast (long_alws_time key) \<and> long_alws_time key > 0
         then key\<lparr>state := KEY_STATE_LONG_PRESSED\<rparr>
         else if diff_tick \<ge> ucast (long_alws_time key) \<and> long_alws_time key > 0
         then key\<lparr>state := KEY_STATE_LONG_PRESSED_ALWS,
                  event := KEY_EVENT_LONG_PRESSED_ALWS, key_last_time := now_tick\<rparr>
         else key
     | KEY_STATE_LONG_PRESSED \<Rightarrow>
         if \<not> key_val
         then key\<lparr>event := KEY_EVENT_LONG_PRESSED, state := KEY_STATE_RELEASED,
                  key_last_time := now_tick, multi_count := 0\<rparr>
         else if diff_tick \<ge> ucast (long_alws_time key) \<and> long_alws_time key > 0
         then key\<lparr>state := KEY_STATE_LONG_PRESSED_ALWS,
                  event := KEY_EVENT_LONG_PRESSED_ALWS, key_last_time := now_tick\<rparr>
         else key
     | KEY_STATE_LONG_PRESSED_ALWS \<Rightarrow>
         if \<not> key_val
         then key\<lparr>key_last_time := now_tick, state := KEY_STATE_RELEASED,
                  event := KEY_EVENT_INIT, multi_count := 0\<rparr>
         else key\<lparr>event := KEY_EVENT_LONG_PRESSED_ALWS\<rparr>
     | KEY_STATE_MULTI_PRESSED \<Rightarrow>
         if key_val \<and> diff_tick \<ge> ucast (debounce_time key)
         then key\<lparr>state := KEY_STATE_PRESSED, key_last_time := now_tick\<rparr>
         else if \<not> key_val \<and> diff_tick \<ge> ucast (multi_time key)
         then (let k1 =
                 (if multi_count key = 1 then key\<lparr>event := KEY_EVENT_PRESSED\<rparr>
                  else if multi_count key = 2 then key\<lparr>event := KEY_EVENT_DOUBLE_PRESSED\<rparr>
                  else if multi_count key = 3 then key\<lparr>event := KEY_EVENT_TRIPLE_PRESSED\<rparr>
                  else if multi_count key > 3 then key\<lparr>event := KEY_EVENT_MULTI_PRESSED\<rparr>
                  else key)
               in k1\<lparr>state := KEY_STATE_RELEASED, key_last_time := now_tick,
                     multi_count := 0\<rparr>)
         else key
     | KEY_STATE_UNKNOWN \<Rightarrow>
         key\<lparr>state := KEY_STATE_INIT, key_last_time := now_tick, multi_count := 0,
             event := KEY_EVENT_INIT\<rparr>)"

text \<open>
  \<open>_NN_Key_StateMachine\<close>: the raw reading is obtained by calling the key's read
  function. \<open>pins\<close> gives what each read function returns at this call; calling a null
  function pointer is undefined behaviour (\<open>None\<close>).
\<close>

definition NN_Key_StateMachine :: "(fn_ptr \<Rightarrow> bool) \<Rightarrow> nn_key_t \<Rightarrow> 32 word \<Rightarrow> nn_key_t option" where
  "NN_Key_StateMachine pins key tick =
     (case key_read key of
        None \<Rightarrow> None
      | Some rd \<Rightarrow> Some (state_switch key tick (pins rd)))"

text \<open>
  A driver for one key: the state machine is run once for every sample
  \<open>(tick, raw reading)\<close> of the list, in order.
\<close>

fun sm_run :: "nn_key_t \<Rightarrow> (32 word \<times> bool) list \<Rightarrow> nn_key_t" where
  "sm_run key [] = key"
| "sm_run key ((tick, key_val) # rest) = sm_run (state_switch key tick key_val) rest"


section \<open>The module state\<close>

text \<open>
  A combo (\<open>nn_comb_t\<close>, with \<open>KEY_MAX_COMBO_MEMBER = 4\<close>, so both bit masks are 4-bit
  fields). \<open>combo_member\<close> is the array of four member pointers.
\<close>

record nn_comb_t =
  combo_id :: string
  combo_value_excepted :: "4 word"
  combo_value_now :: "4 word"
  combo_mem_first :: "32 word"
  combo_window :: "16 word"
  combo_member_nbr :: "8 word"
  combo_trigger :: bool
  combo_member :: "key_ptr option list"
  combo_cb :: nn_key_callback_item_t

text \<open>
  A callback is opaque code of the caller. The model records every invocation, with the
  tick of the \<open>NN_Key_Handler\<close> call that made it, and assumes that a callback does not
  itself write to the keys, the combos or the registries.
\<close>

datatype call =
    Key_call (call_tick: "32 word") key_ptr nn_key_event_t fn_ptr "nat option"
  | Comb_call (call_tick: "32 word") comb_ptr fn_ptr "nat option"

text \<open>
  The state of the module: the key and combo structs owned by the caller (by address),
  the two registries (\<open>_nn_key_num\<close> and \<open>_nn_combo_num\<close> are the lengths of the
  lists), the static \<open>LastTick\<close> of \<open>_NN_Key_Event\<close>, and the log of callback
  invocations, oldest first.
\<close>

record nn_sys =
  keys :: "key_ptr \<Rightarrow> nn_key_t"
  combs :: "comb_ptr \<Rightarrow> nn_comb_t"
  nn_key_list :: "key_ptr list"
  nn_combo_list :: "comb_ptr list"
  LastTick :: "32 word"
  calls :: "call list"

section \<open>Registration of keys and callbacks\<close>

definition NN_Key_Init :: "key_ptr option \<Rightarrow> string \<Rightarrow> fn_ptr option \<Rightarrow> nn_sys \<Rightarrow> bool \<times> nn_sys" where
  "NN_Key_Init key name pfunc s =
     (case key of
        None \<Rightarrow> (False, s)
      | Some p \<Rightarrow> (True, s\<lparr>keys := (keys s)(p := fresh_key name pfunc)\<rparr>))"

definition NN_Key_Add :: "key_ptr option \<Rightarrow> string \<Rightarrow> fn_ptr option \<Rightarrow> nn_sys \<Rightarrow> bool \<times> nn_sys" where
  "NN_Key_Add key ident read_func s =
     (case key of
        None \<Rightarrow> (False, s)
      | Some p \<Rightarrow>
          if read_func = None \<or> length (nn_key_list s) \<ge> KEY_MAX_KEY_NUMBER
          then (False, s)
          else case NN_Key_Init key ident read_func s of
                 (False, s1) \<Rightarrow> (False, s)
               | (True, s1) \<Rightarrow> (True, s1\<lparr>nn_key_list := nn_key_list s1 @ [p]\<rparr>))"

definition NN_Key_SetPara ::
  "key_ptr option \<Rightarrow> 16 word \<Rightarrow> 16 word \<Rightarrow> 16 word \<Rightarrow> 16 word \<Rightarrow> 8 word \<Rightarrow> nn_sys \<Rightarrow> bool \<times> nn_sys" where
  "NN_Key_SetPara key db lt lat mt mm s =
     (case key of
        None \<Rightarrow> (False, s)
      | Some p \<Rightarrow> (True, s\<lparr>keys := (keys s)(p := set_para db lt lat mt mm (keys s p))\<rparr>))"

text \<open>The bit \<open>0x01 << event\<close> of the 8-bit callback mask.\<close>

definition event_bit :: "nn_key_event_t \<Rightarrow> 8 word" where
  "event_bit ev = push_bit (event_nr ev) 1"

definition NN_Key_SetCb ::
  "key_ptr option \<Rightarrow> nn_key_event_t \<Rightarrow> fn_ptr option \<Rightarrow> nat option \<Rightarrow> nn_sys \<Rightarrow> bool \<times> nn_sys" where
  "NN_Key_SetCb key ev cb ud s =
     (case key of
        None \<Rightarrow> (False, s)
      | Some p \<Rightarrow>
          if event_nr ev \<ge> event_nr KEY_EVENT_MAX \<or> cb = None then (False, s)
          else
            let k = keys s p;
                k1 = k\<lparr>callbacks := (callbacks k)(ev := \<lparr>func = cb, user_data = ud\<rparr>)\<rparr>;
                k2 = (if cb \<noteq> None
                      then k1\<lparr>callback_mask := callback_mask k1 OR event_bit ev\<rparr>
                      else k1\<lparr>callback_mask := callback_mask k1 AND NOT (event_bit ev)\<rparr>)
            in (True, s\<lparr>keys := (keys s)(p := k2)\<rparr>))"

definition NN_Key_DeleteCb :: "key_ptr option \<Rightarrow> nn_key_event_t \<Rightarrow> nn_sys \<Rightarrow> bool \<times> nn_sys" where
  "NN_Key_DeleteCb key ev s =
     (case key of
        None \<Rightarrow> (False, s)
      | Some p \<Rightarrow>
          if event_nr ev \<ge> event_nr KEY_EVENT_MAX then (False, s)
          else
            let k = keys s p;
                k1 = k\<lparr>callbacks := (callbacks k)(ev := \<lparr>func = None, user_data = None\<rparr>),
                       callback_mask := callback_mask k AND NOT (event_bit ev)\<rparr>
            in (True, s\<lparr>keys := (keys s)(p := k1)\<rparr>))"

section \<open>Registration of combos\<close>

text \<open>The loop that sets one bit of the expected mask per member.\<close>

definition expected_mask :: "nat \<Rightarrow> 4 word" where
  "expected_mask n = fold (\<lambda>i m. m OR push_bit i 1) [0..<n] 0"

text \<open>
  The loop over the variadic members: \<open>n\<close> further arguments are read; \<open>rest\<close> is what
  the caller passed after \<open>member2\<close>. Reading an argument that was not passed is
  undefined behaviour (\<open>None\<close>). A null argument is skipped and its slot stays null.
\<close>

fun add_rest ::
  "nat \<Rightarrow> nat \<Rightarrow> key_ptr option list \<Rightarrow> (key_ptr \<Rightarrow> nn_key_t) \<times> key_ptr option list \<Rightarrow>
   ((key_ptr \<Rightarrow> nn_key_t) \<times> key_ptr option list) option" where
  "add_rest 0 i rest (ks, mem) = Some (ks, mem)"
| "add_rest (Suc n) i [] (ks, mem) = None"
| "add_rest (Suc n) i (None # rest) (ks, mem) = add_rest n (Suc i) rest (ks, mem)"
| "add_rest (Suc n) i (Some t # rest) (ks, mem) =
     add_rest n (Suc i) rest (ks(t := (ks t)\<lparr>is_member := True\<rparr>), mem[2 + i := Some t])"

text \<open>
  \<open>NN_Combo_Add\<close>. The loop bound \<open>mem_nbr - 2\<close> is computed in \<open>int\<close>, so a count
  below 2 runs the loop zero times. The callback item of the combo is not written. The
  final store \<open>_nn_combo_list[_nn_combo_num++]\<close> is outside the array of 20 entries when 20
  combos are registered: undefined behaviour (\<open>None\<close>).
\<close>

definition NN_Combo_Add ::
  "comb_ptr option \<Rightarrow> string \<Rightarrow> 8 word \<Rightarrow> key_ptr option \<Rightarrow> key_ptr option \<Rightarrow> key_ptr option list \<Rightarrow>
   nn_sys \<Rightarrow> (bool \<times> nn_sys) option" where
  "NN_Combo_Add comb ident mem_nbr member1 member2 rest s =
     (if unat mem_nbr > KEY_MAX_COMBO_MEMBER \<or> length (nn_combo_list s) > KEY_MAX_COMBO_NUMBER
      then Some (False, s)
      else case (comb, member1, member2) of
        (Some cp, Some m1, Some m2) \<Rightarrow>
          let c1 = (combs s cp)\<lparr>combo_id := ident, combo_mem_first := 0,
                     combo_member := replicate KEY_MAX_COMBO_MEMBER None,
                     combo_window := KEY_COMBO_WINDOW, combo_member_nbr := mem_nbr,
                     combo_value_excepted := expected_mask (unat mem_nbr),
                     combo_value_now := 0, combo_trigger := False\<rparr>;
              mem1 = (combo_member c1)[0 := Some m1, 1 := Some m2];
              ks1 = (keys s)(m1 := (keys s m1)\<lparr>is_member := True\<rparr>);
              ks2 = ks1(m2 := (ks1 m2)\<lparr>is_member := True\<rparr>)
          in (case add_rest (unat mem_nbr - 2) 0 rest (ks2, mem1) of
                None \<Rightarrow> None
              | Some (ks3, mem3) \<Rightarrow>
                  if length (nn_combo_list s) \<ge> KEY_MAX_COMBO_NUMBER then None
                  else Some (True, s\<lparr>keys := ks3,
                                     combs := (combs s)(cp := c1\<lparr>combo_member := mem3\<rparr>),
                                     nn_combo_list := nn_combo_list s @ [cp]\<rparr>))
      | _ \<Rightarrow> Some (False, s))"

definition NN_Combo_SetCb :: "comb_ptr option \<Rightarrow> fn_ptr option \<Rightarrow> nat option \<Rightarrow> nn_sys \<Rightarrow> bool \<times> nn_sys" where
  "NN_Combo_SetCb combo cb para s =
     (case combo of
        None \<Rightarrow> (False, s)
      | Some cp \<Rightarrow>
          if cb = None then (False, s)
          else (True, s\<lparr>combs := (combs s)(cp := (combs s cp)\<lparr>combo_cb := \<lparr>func = cb, user_data = para\<rparr>\<rparr>)\<rparr>))"

definition NN_Combo_SetWindowTime :: "comb_ptr option \<Rightarrow> 16 word \<Rightarrow> nn_sys \<Rightarrow> bool \<times> nn_sys" where
  "NN_Combo_SetWindowTime combo time_ms s =
     (case combo of
        None \<Rightarrow> (False, s)
      | Some cp \<Rightarrow> (True, s\<lparr>combs := (combs s)(cp := (combs s cp)\<lparr>combo_window := time_ms\<rparr>)\<rparr>))"

section \<open>The event dispatcher\<close>

text \<open>
  \<open>_NN_Key_Event\<close>. The continuous long-press callback is rate-limited through the
  single static \<open>LastTick\<close>; every other pending event is cleared, with or without a
  callback.
\<close>

definition NN_Key_Event :: "key_ptr option \<Rightarrow> 32 word \<Rightarrow> nn_sys \<Rightarrow> bool \<times> nn_sys" where
  "NN_Key_Event key tick s =
     (case key of
        None \<Rightarrow> (False, s)
      | Some p \<Rightarrow>
          let k = keys s p in
          if event k = KEY_EVENT_INIT then (True, s)
          else
            let ev = event k; item = callbacks k ev in
            (case (if callback_mask k AND event_bit ev \<noteq> 0 then func item else None) of
               Some f \<Rightarrow>
                 if ev = KEY_EVENT_LONG_PRESSED_ALWS
                 then (if tick - LastTick s \<ge> KEY_LONG_PRESS_ALWS_CB
                       then (True, s\<lparr>LastTick := tick,
                                      calls := calls s @ [Key_call tick p ev f (user_data item)]\<rparr>)
                       else (True, s))
                 else (True, s\<lparr>calls := calls s @ [Key_call tick p ev f (user_data item)],
                                keys := (keys s)(p := k\<lparr>event := KEY_EVENT_INIT\<rparr>)\<rparr>)
             | None \<Rightarrow>
                 if ev \<noteq> KEY_EVENT_LONG_PRESSED_ALWS
                 then (True, s\<lparr>keys := (keys s)(p := k\<lparr>event := KEY_EVENT_INIT\<rparr>)\<rparr>)
                 else (True, s)))"

section \<open>The combo engine\<close>

text \<open>
  The member pointers \<open>combo_member[0 .. combo_member_nbr - 1]\<close> that every loop of
  \<open>_NN_Combo_Process\<close> dereferences. A null pointer among them, or a count beyond the
  array, is undefined behaviour (\<open>None\<close>).
\<close>

definition member_ptrs :: "nn_comb_t \<Rightarrow> key_ptr list option" where
  "member_ptrs comb =
     (let n = unat (combo_member_nbr comb)
      in if n \<le> length (combo_member comb) then those (take n (combo_member comb)) else None)"

text \<open>
  The first loop, over the members from index \<open>k\<close> on: a member whose pending event is
  \<open>KEY_EVENT_PRESSED\<close> opens the window or is folded into the accumulated mask, and a
  full mask sets the trigger and resets mask and window start. The loop only reads the keys.
\<close>

fun combo_scan ::
  "(key_ptr \<Rightarrow> nn_key_t) \<Rightarrow> 32 word \<Rightarrow> key_ptr list \<Rightarrow> nat \<Rightarrow> nn_comb_t \<times> bool \<Rightarrow> nn_comb_t \<times> bool" where
  "combo_scan ks tick [] k (comb, combo_active) = (comb, combo_active)"
| "combo_scan ks tick (m # ms) k (comb, combo_active) =
     (if event (ks m) \<noteq> KEY_EVENT_PRESSED
      then combo_scan ks tick ms (Suc k) (comb, combo_active)
      else
        let (c1, a1) =
              (if combo_mem_first comb = 0
               then (comb\<lparr>combo_mem_first := tick, combo_value_now := push_bit k 1\<rparr>, True)
               else if tick - combo_mem_first comb \<le> ucast (combo_window comb)
               then (comb\<lparr>combo_value_now := combo_value_now comb OR push_bit k 1\<rparr>,
                     combo_active)
               else (comb, combo_active));
            c2 = (if combo_value_now c1 = combo_value_excepted c1
                  then c1\<lparr>combo_trigger := True, combo_value_now := 0, combo_mem_first := 0\<rparr>
                  else c1)
        in combo_scan ks tick ms (Suc k) (c2, a1))"

definition set_locks :: "bool \<Rightarrow> key_ptr list \<Rightarrow> (key_ptr \<Rightarrow> nn_key_t) \<Rightarrow> (key_ptr \<Rightarrow> nn_key_t)" where
  "set_locks b ms ks = fold (\<lambda>m ks'. ks'(m := (ks' m)\<lparr>lock_flag := b\<rparr>)) ms ks"

definition reset_members :: "key_ptr list \<Rightarrow> (key_ptr \<Rightarrow> nn_key_t) \<Rightarrow> (key_ptr \<Rightarrow> nn_key_t)" where
  "reset_members ms ks =
     fold (\<lambda>m ks'. ks'(m := (ks' m)\<lparr>event := KEY_EVENT_INIT, lock_flag := False\<rparr>)) ms ks"

text \<open>The body of the outer loop of \<open>_NN_Combo_Process\<close>, for the combo at \<open>cp\<close>.\<close>

definition combo_body :: "32 word \<Rightarrow> comb_ptr \<Rightarrow> nn_sys \<Rightarrow> nn_sys option" where
  "combo_body tick cp s =
     (let comb = combs s cp in
      case member_ptrs comb of
        None \<Rightarrow> None
      | Some ms \<Rightarrow>
          let (c1, combo_active) = combo_scan (keys s) tick ms 0 (comb, combo_mem_first comb > 0);
              ks1 = (if combo_active then set_locks True ms (keys s) else keys s);
              (c2, ks2, calls2) =
                (if combo_trigger c1
                 then (c1\<lparr>combo_trigger := False\<rparr>, reset_members ms ks1,
                       (case func (combo_cb c1) of
                          None \<Rightarrow> calls s
                        | Some f \<Rightarrow> calls s @ [Comb_call tick cp f (user_data (combo_cb c1))]))
                 else (c1, ks1, calls s));
              (c3, ks3) =
                (if combo_mem_first c2 \<noteq> 0 \<and> tick - combo_mem_first c2 > ucast (combo_window c2)
                 then (c2\<lparr>combo_mem_first := 0, combo_value_now := 0\<rparr>, set_locks False ms ks2)
                 else (c2, ks2))
          in Some (s\<lparr>combs := (combs s)(cp := c3), keys := ks3, calls := calls2\<rparr>))"

fun combo_loop :: "32 word \<Rightarrow> comb_ptr list \<Rightarrow> nn_sys \<Rightarrow> nn_sys option" where
  "combo_loop tick [] s = Some s"
| "combo_loop tick (cp # cps) s =
     (case combo_body tick cp s of None \<Rightarrow> None | Some s1 \<Rightarrow> combo_loop tick cps s1)"

definition NN_Combo_Process :: "32 word \<Rightarrow> nn_sys \<Rightarrow> nn_sys option" where
  "NN_Combo_Process tick s = combo_loop tick (nn_combo_list s) s"

section \<open>The handler\<close>

text \<open>The three loops of \<open>NN_Key_Handler\<close> over the registered keys.\<close>

definition reset_locks :: "key_ptr list \<Rightarrow> (key_ptr \<Rightarrow> nn_key_t) \<Rightarrow> (key_ptr \<Rightarrow> nn_key_t)" where
  "reset_locks ps ks =
     fold (\<lambda>p ks'. if is_member (ks' p) then ks'(p := (ks' p)\<lparr>lock_flag := False\<rparr>) else ks') ps ks"

fun update_keys ::
  "(fn_ptr \<Rightarrow> bool) \<Rightarrow> 32 word \<Rightarrow> key_ptr list \<Rightarrow> (key_ptr \<Rightarrow> nn_key_t) \<Rightarrow> (key_ptr \<Rightarrow> nn_key_t) option" where
  "update_keys pins tick [] ks = Some ks"
| "update_keys pins tick (p # ps) ks =
     (case NN_Key_StateMachine pins (ks p) tick of
        None \<Rightarrow> None
      | Some k \<Rightarrow> update_keys pins tick ps (ks(p := k)))"

fun dispatch_keys :: "32 word \<Rightarrow> key_ptr list \<Rightarrow> bool \<times> nn_sys \<Rightarrow> bool \<times> nn_sys" where
  "dispatch_keys tick [] (result, s) = (result, s)"
| "dispatch_keys tick (p # ps) (result, s) =
     (if lock_flag (keys s p) then dispatch_keys tick ps (result, s)
      else case NN_Key_Event (Some p) tick s of
             (r, s1) \<Rightarrow> dispatch_keys tick ps (result \<and> r, s1))"

text \<open>
  \<open>NN_Key_Handler\<close>. \<open>pins\<close> gives the raw readings of this call. The result is
  \<open>None\<close> when the call runs into undefined behaviour.
\<close>

definition NN_Key_Handler :: "(fn_ptr \<Rightarrow> bool) \<Rightarrow> 32 word \<Rightarrow> nn_sys \<Rightarrow> (bool \<times> nn_sys) option" where
  "NN_Key_Handler pins tick s =
     (let ks1 = reset_locks (nn_key_list s) (keys s) in
      case update_keys pins tick (nn_key_list s) ks1 of
        None \<Rightarrow> None
      | Some ks2 \<Rightarrow>
          (case NN_Combo_Process tick (s\<lparr>keys := ks2\<rparr>) of
             None \<Rightarrow> None
           | Some s3 \<Rightarrow> Some (dispatch_keys tick (nn_key_list s3) (True, s3))))"

text \<open>
  A driver: the handler is called once for every entry \<open>(tick, pins)\<close> of the list, in
  order, as the main loop of an application does.
\<close>

fun run :: "(32 word \<times> (fn_ptr \<Rightarrow> bool)) list \<Rightarrow> nn_sys \<Rightarrow> nn_sys option" where
  "run [] s = Some s"
| "run ((tick, pins) # rest) s =
     (case NN_Key_Handler pins tick s of None \<Rightarrow> None | Some (r, s1) \<Rightarrow> run rest s1)"

section \<open>Scenarios\<close>

text \<open>
  A key as \<open>NN_Key_Add\<close> leaves it (default thresholds: debounce 20, long press 500,
  continuous 1500, multi-click gap 300), after a first handler call at tick 0 with the
  button released has taken it from \<open>KEY_STATE_INIT\<close> to \<open>KEY_STATE_RELEASED\<close>.
\<close>

definition released_key :: nn_key_t where
  "released_key = state_switch (fresh_key ''K'' (Some 0)) 0 False"

text \<open>
  \<open>clicks n t\<close>: \<open>n\<close> short clicks sampled every 50 ms from tick \<open>t\<close> on: pressed at
  \<open>t + 50\<close>, released at \<open>t + 100\<close>, pressed again at \<open>t + 150\<close>, and so on.
\<close>

fun clicks :: "nat \<Rightarrow> 32 word \<Rightarrow> (32 word \<times> bool) list" where
  "clicks 0 t = []"
| "clicks (Suc n) t = (t + 50, True) # (t + 100, False) # clicks n (t + 100)"

text \<open>
  The memory before any registration: structs with static storage are zero-initialised,
  both registries are empty and no callback has been invoked.
\<close>

definition zero_key :: nn_key_t where
  "zero_key =
     \<lparr>key_id = [], key_read = None, key_last_time = 0, debounce_time = 0, long_time = 0,
      long_alws_time = 0, multi_time = 0, state = KEY_STATE_INIT, event = KEY_EVENT_INIT,
      is_member = False, lock_flag = False, multi_max = 0, multi_count = 0,
      callback_mask = 0, callbacks = (\<lambda>_. no_callback)\<rparr>"

definition zero_comb :: nn_comb_t where
  "zero_comb =
     \<lparr>combo_id = [], combo_value_excepted = 0, combo_value_now = 0, combo_mem_first = 0,
      combo_window = 0, combo_member_nbr = 0, combo_trigger = False,
      combo_member = [None, None, None, None], combo_cb = no_callback\<rparr>"

definition boot :: nn_sys where
  "boot = \<lparr>keys = (\<lambda>_. zero_key), combs = (\<lambda>_. zero_comb), nn_key_list = [],
            nn_combo_list = [], LastTick = 0, calls = []\<rparr>"

text \<open>
  Two keys: A at address 1 with read function 1, B at address 2 with read function 2.
\<close>

definition two_keys :: nn_sys where
  "two_keys = snd (NN_Key_Add (Some 2) ''B'' (Some 2) (snd (NN_Key_Add (Some 1) ''A'' (Some 1) boot)))"

text \<open>Key A with callback 11 (user data 7) registered for the single press.\<close>

definition click_registered :: nn_sys where
  "click_registered = snd (NN_Key_SetCb (Some 1) KEY_EVENT_PRESSED (Some 11) (Some 7) two_keys)"

text \<open>The state machine raising an event: the pending event of the key at \<open>p\<close> is set.\<close>

definition raise_event :: "key_ptr \<Rightarrow> nn_key_event_t \<Rightarrow> nn_sys \<Rightarrow> nn_sys" where
  "raise_event p ev s = s\<lparr>keys := (keys s)(p := (keys s p)\<lparr>event := ev\<rparr>)\<rparr>"

text \<open>Twenty registered keys and twenty registered combos over keys 1 and 2.\<close>

definition twenty_keys :: nn_sys where
  "twenty_keys = fold (\<lambda>p s. snd (NN_Key_Add (Some p) ''K'' (Some p) s)) [1..<21] boot"

fun add_combos :: "comb_ptr list \<Rightarrow> nn_sys \<Rightarrow> nn_sys option" where
  "add_combos [] s = Some s"
| "add_combos (cp # cps) s =
     (case NN_Combo_Add (Some cp) ''C'' 2 (Some 1) (Some 2) [] s of
        None \<Rightarrow> None
      | Some (r, s1) \<Rightarrow> add_combos cps s1)"

definition twenty_combos :: "nn_sys option" where
  "twenty_combos = add_combos [1..<21] two_keys"

text \<open>The callback invocations that a step from \<open>s\<close> to \<open>s'\<close> added to the log.\<close>

definition new_calls :: "nn_sys \<Rightarrow> nn_sys \<Rightarrow> call list" where
  "new_calls s s' = drop (length (calls s)) (calls s')"

text \<open>
  The combo scenario: keys A and B with callbacks 11 and 12 for the single press, and the
  combo AB at address 1 over A (member 0) and B (member 1), with the default window of
  300 ms and callback 21.
\<close>

definition combo_AB :: "nn_sys option" where
  "combo_AB =
     (case NN_Combo_Add (Some 1) ''AB'' 2 (Some 1) (Some 2) []
             (snd (NN_Key_SetCb (Some 2) KEY_EVENT_PRESSED (Some 12) None
                (snd (NN_Key_SetCb (Some 1) KEY_EVENT_PRESSED (Some 11) None two_keys)))) of
        None \<Rightarrow> None
      | Some (r, s) \<Rightarrow> Some (snd (NN_Combo_SetCb (Some 1) (Some 21) None s)))"

text \<open>
  The handler is called every 50 ms, from tick 0 to tick 1200. A click is a press sampled
  at one call and released at the next; with the default multi-click gap of 300 ms the
  state machine raises the single-press event 300 ms after the release.
  In \<open>pins_250\<close> key A is down at tick 50 and key B at tick 300, so the press event of A
  is raised at tick 400 and that of B at tick 650, 250 ms later. In \<open>pins_400\<close> key B is
  down at tick 450, so its press event is raised at tick 800, 400 ms after that of A.
\<close>

definition ticks_50 :: "32 word list" where
  "ticks_50 = [0, 50, 100, 150, 200, 250, 300, 350, 400, 450, 500, 550, 600, 650, 700, 750,
               800, 850, 900, 950, 1000, 1050, 1100, 1150, 1200]"

definition pins_250 :: "32 word \<Rightarrow> fn_ptr \<Rightarrow> bool" where
  "pins_250 t rd = ((rd = 1 \<and> t = 50) \<or> (rd = 2 \<and> t = 300))"

definition pins_400 :: "32 word \<Rightarrow> fn_ptr \<Rightarrow> bool" where
  "pins_400 t rd = ((rd = 1 \<and> t = 50) \<or> (rd = 2 \<and> t = 450))"

definition schedule :: "(32 word \<Rightarrow> fn_ptr \<Rightarrow> bool) \<Rightarrow> (32 word \<times> (fn_ptr \<Rightarrow> bool)) list" where
  "schedule pins = map (\<lambda>t. (t, pins t)) ticks_50"

text \<open>
  What is observed after each handler call of a run over keys 1 and 2 and combo 1: the
  tick, the callbacks invoked by this call, the pending event and the lock flag of each
  key, and the window start and accumulated mask of the combo.
\<close>

type_synonym row =
  "32 word \<times> call list \<times> (nn_key_event_t \<times> bool) \<times> (nn_key_event_t \<times> bool) \<times> 32 word \<times> 4 word"

definition row_of :: "32 word \<Rightarrow> nn_sys \<Rightarrow> nn_sys \<Rightarrow> row" where
  "row_of tick s s1 =
     (tick, new_calls s s1,
      (event (keys s1 1), lock_flag (keys s1 1)),
      (event (keys s1 2), lock_flag (keys s1 2)),
      combo_mem_first (combs s1 1), combo_value_now (combs s1 1))"

fun timeline :: "(32 word \<times> (fn_ptr \<Rightarrow> bool)) list \<Rightarrow> nn_sys \<Rightarrow> row list option" where
  "timeline [] s = Some []"
| "timeline ((tick, pins) # rest) s =
     (case NN_Key_Handler pins tick s of
        None \<Rightarrow> None
      | Some (r, s1) \<Rightarrow> map_option ((#) (row_of tick s s1)) (timeline rest s1))"

definition timeline_of :: "(32 word \<Rightarrow> fn_ptr \<Rightarrow> bool) \<Rightarrow> nn_sys option \<Rightarrow> row list option" where
  "timeline_of pins s0 = (case s0 of None \<Rightarrow> None | Some s \<Rightarrow> timeline (schedule pins) s)"


text \<open>
  A continuous long-press callback invocation, and a log in which successive invocations
  of that kind are at least \<open>KEY_LONG_PRESS_ALWS_CB\<close> ticks apart (as the code measures
  it: by unsigned 32-bit subtraction).
\<close>

fun is_continuous :: "call \<Rightarrow> bool" where
  "is_continuous (Key_call t p ev f u) = (ev = KEY_EVENT_LONG_PRESSED_ALWS)"
| "is_continuous (Comb_call t cp f u) = False"

definition spaced :: "call list \<Rightarrow> bool" where
  "spaced cs =
     successively (\<lambda>c d. call_tick d - call_tick c \<ge> KEY_LONG_PRESS_ALWS_CB)
       (filter is_continuous cs)"

text \<open>A driver for the dispatcher alone: it is called for the key at \<open>p\<close> at every tick of the list.\<close>

fun dispatch_run :: "key_ptr \<Rightarrow> 32 word list \<Rightarrow> nn_sys \<Rightarrow> nn_sys" where
  "dispatch_run p [] s = s"
| "dispatch_run p (tick # ticks) s = dispatch_run p ticks (snd (NN_Key_Event (Some p) tick s))"

text \<open>Whether the key has a callback registered for the event: mask bit and slot.\<close>

definition registered :: "nn_key_t \<Rightarrow> nn_key_event_t \<Rightarrow> bool" where
  "registered k ev = (callback_mask k AND event_bit ev \<noteq> 0 \<and> func (callbacks k ev) \<noteq> None)"

text \<open>
  The bookkeeping of the rate limiter between a state \<open>s0\<close> and a later state \<open>s\<close>: the
  log has only grown, the continuous invocations added since \<open>s0\<close> are spaced, and
  \<open>LastTick\<close> is the tick of the last of them (or still that of \<open>s0\<close> if there is none).
\<close>

definition limiter_ok :: "nn_sys \<Rightarrow> nn_sys \<Rightarrow> bool" where
  "limiter_ok s0 s =
     (calls s = calls s0 @ new_calls s0 s \<and> spaced (new_calls s0 s) \<and>
      LastTick s = (if filter is_continuous (new_calls s0 s) = [] then LastTick s0
                    else call_tick (last (filter is_continuous (new_calls s0 s)))))"

text \<open>An invocation of callback \<open>f\<close> with user data \<open>u\<close> for event \<open>ev\<close> of the key at \<open>p\<close>.\<close>

fun key_call_of :: "key_ptr \<Rightarrow> nn_key_event_t \<Rightarrow> fn_ptr \<Rightarrow> nat option \<Rightarrow> call \<Rightarrow> bool" where
  "key_call_of p ev f u (Key_call t q ev' g v) = (q = p \<and> ev' = ev \<and> g = f \<and> v = u)"
| "key_call_of p ev f u (Comb_call t cp g v) = False"

text \<open>
  Keys A and B both held down long enough to be in the continuous long-press state, with
  callbacks 13 and 14 registered for the continuous event.
\<close>

definition hold :: "key_ptr \<Rightarrow> nn_sys \<Rightarrow> nn_sys" where
  "hold p s = s\<lparr>keys := (keys s)(p := (keys s p)\<lparr>state := KEY_STATE_LONG_PRESSED_ALWS,
                                               event := KEY_EVENT_LONG_PRESSED_ALWS\<rparr>)\<rparr>"

definition both_held :: nn_sys where
  "both_held =
     hold 2 (hold 1
       (snd (NN_Key_SetCb (Some 2) KEY_EVENT_LONG_PRESSED_ALWS (Some 14) None
          (snd (NN_Key_SetCb (Some 1) KEY_EVENT_LONG_PRESSED_ALWS (Some 13) None two_keys)))))"

text \<open>
  \<open>only_from A c\<close>: if \<open>c\<close> is a continuous long-press invocation, it is for a key of \<open>A\<close>.
  \<open>log_inv P s0 s\<close>: since \<open>s0\<close> the log has only grown, by invocations that satisfy \<open>P\<close>.
\<close>

fun only_from :: "key_ptr set \<Rightarrow> call \<Rightarrow> bool" where
  "only_from A (Key_call t p ev f u) = (ev = KEY_EVENT_LONG_PRESSED_ALWS \<longrightarrow> p \<in> A)"
| "only_from A (Comb_call t cp f u) = True"

definition log_inv :: "(call \<Rightarrow> bool) \<Rightarrow> nn_sys \<Rightarrow> nn_sys \<Rightarrow> bool" where
  "log_inv P s0 s = (calls s = calls s0 @ new_calls s0 s \<and> (\<forall>c \<in> set (new_calls s0 s). P c))"

text \<open>
  A key that is held in the continuous long-press state, reads its button through \<open>rd\<close>,
  is not locked, and has callback \<open>f\<close> registered for the continuous event.
\<close>

definition held :: "fn_ptr \<Rightarrow> fn_ptr \<Rightarrow> nn_key_t \<Rightarrow> bool" where
  "held rd f k =
     (state k = KEY_STATE_LONG_PRESSED_ALWS \<and> key_read k = Some rd \<and> \<not> lock_flag k \<and>
      callback_mask k AND event_bit KEY_EVENT_LONG_PRESSED_ALWS \<noteq> 0 \<and>
      func (callbacks k KEY_EVENT_LONG_PRESSED_ALWS) = Some f)"

text \<open>Four handler calls during which every button is read as pressed.\<close>

definition all_down :: "fn_ptr \<Rightarrow> bool" where
  "all_down rd = True"

definition held_sched :: "(32 word \<times> (fn_ptr \<Rightarrow> bool)) list" where
  "held_sched = [(100, all_down), (120, all_down), (150, all_down), (200, all_down)]"

text \<open>
  Relations between the fields of a combo. A combo is well formed when its member count
  fits the member array and its expected mask is the one \<open>NN_Combo_Add\<close> computes from
  the count. The accumulated mask is a subset of the expected mask when it has no bit
  outside it. \<open>window_inv\<close> relates two fields only: the window start is zero exactly when
  the accumulated mask is zero. It says nothing about which presses have been observed.
\<close>

definition combo_wf :: "nn_comb_t \<Rightarrow> bool" where
  "combo_wf c =
     (unat (combo_member_nbr c) \<le> KEY_MAX_COMBO_MEMBER \<and>
      combo_value_excepted c = expected_mask (unat (combo_member_nbr c)))"

definition mask_subset :: "nn_comb_t \<Rightarrow> bool" where
  "mask_subset c = (combo_value_now c AND combo_value_excepted c = combo_value_now c)"

definition window_inv :: "nn_comb_t \<Rightarrow> bool" where
  "window_inv c = ((combo_mem_first c \<noteq> 0) = (combo_value_now c \<noteq> 0))"

text \<open>
  A run across the wrap-around of the 32-bit tick: key A is clicked at tick \<open>2^32 - 350\<close>
  and released at \<open>2^32 - 300\<close>, so that its press event is raised 300 ms later, by the
  handler call at tick 0.
\<close>

definition wrap_sched :: "(32 word \<times> (fn_ptr \<Rightarrow> bool)) list" where
  "wrap_sched =
     [(4294966896, (\<lambda>rd. False)), (4294966946, (\<lambda>rd. rd = 1)), (4294966996, (\<lambda>rd. False)),
      (0, (\<lambda>rd. False)), (50, (\<lambda>rd. False))]"

definition timeline_from :: "(32 word \<times> (fn_ptr \<Rightarrow> bool)) list \<Rightarrow> nn_sys option \<Rightarrow> row list option" where
  "timeline_from sched s0 = (case s0 of None \<Rightarrow> None | Some s \<Rightarrow> timeline sched s)"



text \<open>Two values of a key struct that differ at most in the pending event and the lock flag.\<close>

definition same_core :: "nn_key_t \<Rightarrow> nn_key_t \<Rightarrow> bool" where
  "same_core k k' = (k' = k\<lparr>event := event k', lock_flag := lock_flag k'\<rparr>)"





text \<open>
  A second scenario: three keys A, B and X, the combo AB at address 1 with a window of
  100 ms and callback 21, and the combo ABX at address 2 over the same two keys and X,
  with a window of 1000 ms. Keys A and B are clicked so that the press event of A is
  raised at tick 400 and that of B at tick 550, 150 ms later; the handler is then called a
  second time at tick 550.
\<close>

definition three_keys :: nn_sys where
  "three_keys = snd (NN_Key_Add (Some 3) ''X'' (Some 3) two_keys)"

definition two_combos :: "nn_sys option" where
  "two_combos =
     (case NN_Combo_Add (Some 1) ''AB'' 2 (Some 1) (Some 2) [] three_keys of
        None \<Rightarrow> None
      | Some (r1, s1) \<Rightarrow>
          (case NN_Combo_Add (Some 2) ''ABX'' 3 (Some 1) (Some 2) [Some 3]
                  (snd (NN_Combo_SetWindowTime (Some 1) 100
                     (snd (NN_Combo_SetCb (Some 1) (Some 21) None s1)))) of
             None \<Rightarrow> None
           | Some (r2, s2) \<Rightarrow> Some (snd (NN_Combo_SetWindowTime (Some 2) 1000 s2))))"

definition pins_150 :: "32 word \<Rightarrow> fn_ptr \<Rightarrow> bool" where
  "pins_150 t rd = ((rd = 1 \<and> t = 50) \<or> (rd = 2 \<and> t = 200))"

definition overlap_sched :: "(32 word \<times> (fn_ptr \<Rightarrow> bool)) list" where
  "overlap_sched =
     map (\<lambda>t. (t, pins_150 t)) [0, 50, 100, 150, 200, 250, 300, 350, 400, 450, 500, 550, 550]"


section \<open>Notions for the combo engine and the handler\<close>

text \<open>
  The body of the inner loop of \<open>_NN_Combo_Process\<close> for the member \<open>m\<close> at index \<open>k\<close>,
  as a function of its own: \<open>combo_scan\<close> is the composition of these steps (lemma
  \<open>combo_scan_Cons\<close>). A member is \<open>pressed\<close> when its pending event is the single
  press, the only event the scan looks at; \<open>pressed_bits\<close> is the mask of the pressed
  members of a list, counted from index \<open>k\<close>. A window is \<open>expired\<close> at a tick under the
  test of the timeout branch: the window start is non-zero and the unsigned 32-bit
  difference between tick and window start exceeds the window length.
\<close>

definition pressed :: "(key_ptr \<Rightarrow> nn_key_t) \<Rightarrow> key_ptr \<Rightarrow> bool" where
  "pressed ks m = (event (ks m) = KEY_EVENT_PRESSED)"

fun pressed_bits :: "(key_ptr \<Rightarrow> nn_key_t) \<Rightarrow> key_ptr list \<Rightarrow> nat \<Rightarrow> 4 word" where
  "pressed_bits ks [] k = 0"
| "pressed_bits ks (m # ms) k =
     (if pressed ks m then push_bit k 1 else 0) OR pressed_bits ks ms (Suc k)"

definition expired :: "32 word \<Rightarrow> nn_comb_t \<Rightarrow> bool" where
  "expired tick c = (combo_mem_first c \<noteq> 0 \<and> tick - combo_mem_first c > ucast (combo_window c))"

definition scan_at ::
  "(key_ptr \<Rightarrow> nn_key_t) \<Rightarrow> 32 word \<Rightarrow> key_ptr \<Rightarrow> nat \<Rightarrow> nn_comb_t \<times> bool \<Rightarrow> nn_comb_t \<times> bool" where
  "scan_at ks tick m k = (\<lambda>(comb, combo_active).
     if event (ks m) \<noteq> KEY_EVENT_PRESSED then (comb, combo_active)
     else
       let (c1, a1) =
             (if combo_mem_first comb = 0
              then (comb\<lparr>combo_mem_first := tick, combo_value_now := push_bit k 1\<rparr>, True)
              else if tick - combo_mem_first comb \<le> ucast (combo_window comb)
              then (comb\<lparr>combo_value_now := combo_value_now comb OR push_bit k 1\<rparr>,
                    combo_active)
              else (comb, combo_active));
           c2 = (if combo_value_now c1 = combo_value_excepted c1
                 then c1\<lparr>combo_trigger := True, combo_value_now := 0, combo_mem_first := 0\<rparr>
                 else c1)
       in (c2, a1))"

text \<open>
  Callback invocations by origin: \<open>comb_call_of cp\<close> holds of the invocations of the
  callback of the combo at \<open>cp\<close>, \<open>key_call_in A\<close> of the invocations of key callbacks for
  the keys of \<open>A\<close>.
\<close>

fun comb_call_of :: "comb_ptr \<Rightarrow> call \<Rightarrow> bool" where
  "comb_call_of cp (Comb_call t c f u) = (c = cp)"
| "comb_call_of cp (Key_call t p ev f u) = False"

fun key_call_in :: "key_ptr set \<Rightarrow> call \<Rightarrow> bool" where
  "key_call_in A (Key_call t p ev f u) = (p \<in> A)"
| "key_call_in A (Comb_call t c f u) = False"

text \<open>
  \<open>sampled pins tick s\<close> is the key heap after the first two loops of \<open>NN_Key_Handler\<close>
  (lock flags of the registered keys reset, then the state machine of every registered
  key), that is, the keys as the combo engine of that call finds them.
\<close>

definition sampled :: "(fn_ptr \<Rightarrow> bool) \<Rightarrow> 32 word \<Rightarrow> nn_sys \<Rightarrow> (key_ptr \<Rightarrow> nn_key_t) option" where
  "sampled pins tick s =
     update_keys pins tick (nn_key_list s) (reset_locks (nn_key_list s) (keys s))"


definition alone :: "nn_sys \<Rightarrow> comb_ptr \<Rightarrow> bool" where
  "alone s cp =
     (cp \<in> set (nn_combo_list s) \<and> distinct (nn_combo_list s) \<and>
      (\<forall>cq \<in> set (nn_combo_list s). cq \<noteq> cp \<longrightarrow>
         (\<forall>m. Some m \<in> set (combo_member (combs s cp)) \<longrightarrow>
              Some m \<notin> set (combo_member (combs s cq)))))"







text \<open>
  Three more scenarios for the combo AB. In \<open>pins_mirror\<close> the scenario of \<open>pins_250\<close>
  is mirrored: B is clicked at tick 50 and A at tick 300, so that the press event of B,
  the member with the higher index, is raised at tick 400 and that of A at tick 650. In
  \<open>combo_quick\<close> \<open>NN_Key_SetPara\<close> gives both keys a multi-click gap of 100 ms, so that a
  click raises its press event 150 ms after the button goes down; in \<open>pins_stale\<close> B is
  clicked at tick 50 and A at tick 200 (press events at 200 and 350, a first pair), and
  then A at tick 400 and B at tick 650 (press events at 550 and 800, a second pair, 250
  ms apart). In \<open>zero_sched\<close> the run crosses the wrap-around of the tick, and both
  buttons are clicked so that both press events are raised by the handler call at tick 0.
\<close>

definition pins_mirror :: "32 word \<Rightarrow> fn_ptr \<Rightarrow> bool" where
  "pins_mirror t rd = ((rd = 2 \<and> t = 50) \<or> (rd = 1 \<and> t = 300))"

definition combo_quick :: "nn_sys option" where
  "combo_quick =
     (case combo_AB of
        None \<Rightarrow> None
      | Some s \<Rightarrow>
          Some (snd (NN_Key_SetPara (Some 2) 0 0 0 100 0
                  (snd (NN_Key_SetPara (Some 1) 0 0 0 100 0 s)))))"

definition pins_stale :: "32 word \<Rightarrow> fn_ptr \<Rightarrow> bool" where
  "pins_stale t rd = ((rd = 2 \<and> (t = 50 \<or> t = 650)) \<or> (rd = 1 \<and> (t = 200 \<or> t = 400)))"

definition zero_sched :: "(32 word \<times> (fn_ptr \<Rightarrow> bool)) list" where
  "zero_sched =
     [(4294966896, (\<lambda>rd. False)), (4294966946, (\<lambda>rd. True)), (4294966996, (\<lambda>rd. False)),
      (0, (\<lambda>rd. False)), (50, (\<lambda>rd. False)), (100, (\<lambda>rd. False))]"

section \<open>Properties of the key state machine\<close>

lemmas threshold_defs =
  KEY_DEBOUNCE_TIME_def KEY_LONG_PRESS_TIME_def KEY_LONG_PRESS_ALWS_def KEY_MULTI_PRESS_TIME_def

text \<open>
  Claim C1, as stated, fails. The key below is in \<open>KEY_STATE_RELEASED\<close> since tick 0, with
  debounce time 20. The raw input is released at ticks 99 and 101 and pressed at the single
  sample of tick 100, a pulse far shorter than 20 ms; still the state machine leaves
  \<open>KEY_STATE_RELEASED\<close>. The debounce gate compares the time since the last transition,
  not the length of the pulse.
\<close>

theorem short_pulse_leaves_released:
  "state released_key = KEY_STATE_RELEASED \<and> debounce_time released_key = 20 \<and>
   state (sm_run released_key [(99, False), (100, True)]) = KEY_STATE_PRESSED \<and>
   state (sm_run released_key [(99, False), (100, True), (101, False)]) \<noteq> KEY_STATE_RELEASED"
  by (simp add: released_key_def fresh_key_def state_switch_def threshold_defs Let_def
      word_le_nat_alt)

text \<open>
  Claim C1, amended: a key in \<open>KEY_STATE_RELEASED\<close> stays there, with every field
  unchanged, through every sequence of samples in which the raw input is pressed only at
  ticks less than \<open>debounce_time\<close> after the key's last transition (in unsigned 32-bit
  arithmetic). How long the pulse itself lasts plays no role.
\<close>

theorem released_within_debounce_stays:
  assumes "state key = KEY_STATE_RELEASED"
    and "\<forall>(tick, key_val) \<in> set samples.
           key_val \<longrightarrow> tick - key_last_time key < ucast (debounce_time key)"
  shows "sm_run key samples = key"
  using assms
proof (induction samples)
  case Nil
  then show ?case by simp
next
  case (Cons a samples)
  obtain t v where a: "a = (t, v)" by (cases a)
  from Cons.prems have "state_switch key t v = key"
    by (auto simp: a state_switch_def Let_def not_le)
  with Cons show ?case by (simp add: a)
qed

theorem released_within_debounce_stays_witness:
  "state released_key = KEY_STATE_RELEASED \<and>
   5 - key_last_time released_key < ucast (debounce_time released_key) \<and>
   19 - key_last_time released_key < ucast (debounce_time released_key) \<and>
   sm_run released_key [(5, True), (10, False), (19, True)] = released_key"
proof -
  have st: "state released_key = KEY_STATE_RELEASED"
    by (simp add: released_key_def fresh_key_def state_switch_def)
  have early: "5 - key_last_time released_key < ucast (debounce_time released_key)"
    "19 - key_last_time released_key < ucast (debounce_time released_key)"
    by (simp_all add: released_key_def fresh_key_def state_switch_def threshold_defs)
  then have pulse: "\<forall>(tick, key_val) \<in> set [(5, True), (10, False), (19, True)].
      key_val \<longrightarrow> tick - key_last_time released_key < ucast (debounce_time released_key)"
    by simp
  from released_within_debounce_stays [OF st pulse] st early show ?thesis by blast
qed

text \<open>
  Claim C5: the code does not do what the claim says. A key with the default parameters
  (\<open>multi_max = 4\<close>) is clicked 16 times, each click 50 ms long and 50 ms after the one
  before. The state machine never reads \<open>multi_max\<close>: after five clicks the counter is 5,
  and the sixteenth increment wraps the 4-bit counter to 0. When the multi-click window
  then closes at tick 1900 no branch of the classification applies, and the pending event
  stays \<open>KEY_EVENT_INIT\<close>: sixteen clicks are reported as nothing at all.
\<close>

theorem sixteen_clicks_wrap_to_none:
  "multi_max (sm_run (fresh_key ''K'' (Some 0)) ((0, False) # clicks 5 0)) = 4 \<and>
   multi_count (sm_run (fresh_key ''K'' (Some 0)) ((0, False) # clicks 5 0)) = 5 \<and>
   multi_count (sm_run (fresh_key ''K'' (Some 0)) ((0, False) # clicks 15 0)) = 15 \<and>
   multi_count (sm_run (fresh_key ''K'' (Some 0)) ((0, False) # clicks 16 0)) = 0 \<and>
   state (sm_run (fresh_key ''K'' (Some 0)) ((0, False) # clicks 16 0)) = KEY_STATE_MULTI_PRESSED \<and>
   state (sm_run (fresh_key ''K'' (Some 0)) ((0, False) # clicks 16 0 @ [(1900, False)]))
     = KEY_STATE_RELEASED \<and>
   event (sm_run (fresh_key ''K'' (Some 0)) ((0, False) # clicks 16 0 @ [(1900, False)]))
     = KEY_EVENT_INIT"
  by code_simp

section \<open>Properties of registration\<close>

lemmas limit_defs = KEY_MAX_KEY_NUMBER_def KEY_MAX_COMBO_NUMBER_def KEY_MAX_COMBO_MEMBER_def

lemma replicate_4: "replicate 4 x = [x, x, x, x]"
  by (simp add: numeral_eq_Suc)

lemma expected_mask_simps:
  "expected_mask 0 = 0" "expected_mask (Suc 0) = 1" "expected_mask 2 = 3"
  "expected_mask 3 = 7" "expected_mask 4 = 15"
  by (simp_all add: expected_mask_def upt_rec)

lemma mask_clear: "(m AND NOT (event_bit ev)) AND event_bit ev = 0"
  by (simp add: and.assoc)

text \<open>
  What the argument checks of the registration functions do reject: a null key, a null
  read function, a twenty-first key, a null callback, the event value \<open>KEY_EVENT_MAX\<close>, a
  null combo, a null first or second member, and a member count above
  \<open>KEY_MAX_COMBO_MEMBER\<close>. In each case the call returns false and the state is untouched.
\<close>

lemma invalid_arguments_rejected:
  "NN_Key_Init None name pf s = (False, s) \<and>
   NN_Key_Add None ident rf s = (False, s) \<and>
   NN_Key_Add key ident None s = (False, s) \<and>
   (length (nn_key_list s) \<ge> KEY_MAX_KEY_NUMBER \<longrightarrow> NN_Key_Add key ident rf s = (False, s)) \<and>
   NN_Key_SetPara None db lt lat mt mm s = (False, s) \<and>
   NN_Key_SetCb None ev cb ud s = (False, s) \<and>
   NN_Key_SetCb key ev None ud s = (False, s) \<and>
   NN_Key_SetCb key KEY_EVENT_MAX cb ud s = (False, s) \<and>
   NN_Key_DeleteCb None ev s = (False, s) \<and>
   NN_Key_DeleteCb key KEY_EVENT_MAX s = (False, s) \<and>
   NN_Combo_SetCb None cb para s = (False, s) \<and>
   NN_Combo_SetCb combo None para s = (False, s) \<and>
   NN_Combo_SetWindowTime None time_ms s = (False, s) \<and>
   (unat mem_nbr > KEY_MAX_COMBO_MEMBER \<longrightarrow>
      NN_Combo_Add comb ident mem_nbr m1 m2 rest s = Some (False, s)) \<and>
   NN_Combo_Add None ident mem_nbr m1 m2 rest s = Some (False, s) \<and>
   NN_Combo_Add comb ident mem_nbr None m2 rest s = Some (False, s) \<and>
   NN_Combo_Add comb ident mem_nbr m1 None rest s = Some (False, s)"
  by (auto simp: NN_Key_Init_def NN_Key_Add_def NN_Key_SetPara_def NN_Key_SetCb_def
      NN_Key_DeleteCb_def NN_Combo_SetCb_def NN_Combo_SetWindowTime_def NN_Combo_Add_def
      split: option.splits)

text \<open>
  Claim C6: the code does not do what the claim says, in two places of \<open>NN_Combo_Add\<close>.
  A member count of 1 is below the documented minimum of two members, yet the call returns
  true and registers a combo whose expected mask is the single bit of its first member.
  And with 20 combos registered the guard \<open>_nn_combo_num > KEY_MAX_COMBO_NUMBER\<close> still
  lets the call through (\<open>NN_Key_Add\<close> tests \<open>>=\<close>), so the twenty-first combo is stored
  past the end of the registry instead of being refused.
\<close>

theorem combo_add_accepts_bad_counts:
  "(case NN_Combo_Add (Some 1) ''AB'' 1 (Some 1) (Some 2) [] two_keys of
      None \<Rightarrow> False
    | Some (r, s) \<Rightarrow>
        r \<and> nn_combo_list two_keys = [] \<and> nn_combo_list s = [1] \<and>
        combo_member_nbr (combs s 1) = 1 \<and> combo_value_excepted (combs s 1) = 1 \<and>
        is_member (keys s 1) \<and> is_member (keys s 2)) \<and>
   (case twenty_combos of
      None \<Rightarrow> False
    | Some s \<Rightarrow>
        length (nn_combo_list s) = 20 \<and>
        NN_Combo_Add (Some 21) ''C'' 2 (Some 1) (Some 2) [] s = None)"
  by (simp add: twenty_combos_def two_keys_def NN_Combo_Add_def NN_Key_Add_def NN_Key_Init_def
      boot_def limit_defs replicate_4 expected_mask_simps upt_rec Let_def)

text \<open>
  Claim C7, as stated, fails. Key A has callback 11 registered for the single press.
  Registering a null callback for that event is refused by the argument check of
  \<open>NN_Key_SetCb\<close>: the call returns false and changes nothing, and when the event occurs
  afterwards callback 11 is still invoked.
\<close>

theorem null_callback_does_not_remove:
  "NN_Key_SetCb (Some 1) KEY_EVENT_PRESSED None None click_registered = (False, click_registered) \<and>
   new_calls click_registered (snd (NN_Key_Event (Some 1) 400
      (raise_event 1 KEY_EVENT_PRESSED
         (snd (NN_Key_SetCb (Some 1) KEY_EVENT_PRESSED None None click_registered)))))
     = [Key_call 400 1 KEY_EVENT_PRESSED 11 (Some 7)]"
  by (simp add: NN_Key_SetCb_def NN_Key_Event_def raise_event_def click_registered_def two_keys_def
      NN_Key_Add_def NN_Key_Init_def fresh_key_def boot_def new_calls_def event_bit_def
      KEY_MAX_KEY_NUMBER_def no_callback_def Let_def)

text \<open>
  Claim C7, amended: for every key and every event kind below \<open>KEY_EVENT_MAX\<close>,
  \<open>NN_Key_DeleteCb\<close> succeeds and removes the registered callback: in every later state
  in which the callback table and mask of the key are as the deletion left them, an
  occurrence of the event invokes no callback. \<open>NN_Key_SetCb\<close> with a null callback is
  rejected and leaves the state as it is.
\<close>

theorem delete_removes_callback:
  assumes "event_nr ev < event_nr KEY_EVENT_MAX"
  shows "fst (NN_Key_DeleteCb (Some p) ev s) \<and>
         (\<forall>s2 tick.
            callback_mask (keys s2 p) = callback_mask (keys (snd (NN_Key_DeleteCb (Some p) ev s)) p) \<and>
            callbacks (keys s2 p) = callbacks (keys (snd (NN_Key_DeleteCb (Some p) ev s)) p) \<and>
            event (keys s2 p) = ev
            \<longrightarrow> calls (snd (NN_Key_Event (Some p) tick s2)) = calls s2) \<and>
         NN_Key_SetCb key ev None ud s = (False, s)"
  using assms
  by (auto simp: NN_Key_DeleteCb_def NN_Key_SetCb_def NN_Key_Event_def Let_def mask_clear
      split: option.splits)

theorem delete_removes_callback_witness:
  "fst (NN_Key_DeleteCb (Some 1) KEY_EVENT_PRESSED click_registered) \<and>
   calls (snd (NN_Key_Event (Some 1) 400
      (raise_event 1 KEY_EVENT_PRESSED
         (snd (NN_Key_DeleteCb (Some 1) KEY_EVENT_PRESSED click_registered))))) = [] \<and>
   NN_Key_SetCb (Some 1) KEY_EVENT_PRESSED None None click_registered = (False, click_registered)"
proof -
  have lt: "event_nr KEY_EVENT_PRESSED < event_nr KEY_EVENT_MAX" by simp
  have c: "calls (raise_event 1 KEY_EVENT_PRESSED
             (snd (NN_Key_DeleteCb (Some 1) KEY_EVENT_PRESSED click_registered))) = []"
    by (simp add: raise_event_def NN_Key_DeleteCb_def Let_def click_registered_def NN_Key_SetCb_def
        two_keys_def NN_Key_Add_def NN_Key_Init_def boot_def KEY_MAX_KEY_NUMBER_def)
  have same:
    "callback_mask (keys (raise_event 1 KEY_EVENT_PRESSED
        (snd (NN_Key_DeleteCb (Some 1) KEY_EVENT_PRESSED click_registered))) 1)
       = callback_mask (keys (snd (NN_Key_DeleteCb (Some 1) KEY_EVENT_PRESSED click_registered)) 1)"
    "callbacks (keys (raise_event 1 KEY_EVENT_PRESSED
        (snd (NN_Key_DeleteCb (Some 1) KEY_EVENT_PRESSED click_registered))) 1)
       = callbacks (keys (snd (NN_Key_DeleteCb (Some 1) KEY_EVENT_PRESSED click_registered)) 1)"
    "event (keys (raise_event 1 KEY_EVENT_PRESSED
        (snd (NN_Key_DeleteCb (Some 1) KEY_EVENT_PRESSED click_registered))) 1) = KEY_EVENT_PRESSED"
    by (simp_all add: raise_event_def)
  from delete_removes_callback [OF lt, of 1 click_registered "Some 1" None] same c
  show ?thesis by metis
qed

section \<open>The combo scenarios\<close>

lemmas model_defs =
  NN_Key_Add_def NN_Key_Init_def fresh_key_def NN_Key_SetCb_def NN_Combo_Add_def NN_Combo_SetCb_def
  NN_Key_Handler_def NN_Combo_Process_def combo_body_def member_ptrs_def set_locks_def
  reset_members_def reset_locks_def NN_Key_StateMachine_def state_switch_def NN_Key_Event_def
  event_bit_def no_callback_def threshold_defs KEY_LONG_PRESS_ALWS_CB_def KEY_COMBO_WINDOW_def
  limit_defs

lemmas scenario_defs =
  boot_def zero_key_def zero_comb_def two_keys_def combo_AB_def ticks_50_def schedule_def
  timeline_of_def row_of_def new_calls_def

lemmas eval_simps = Let_def replicate_4 expected_mask_simps word_le_nat_alt word_less_nat_alt

text \<open>
  The combo AB with the window of 300 ms on a system fresh from registration. A is clicked
  so that its press event is raised at tick 400, B so that its press event is raised at
  tick 650, which is 250 ms later. From tick 400 on the window is open (start 400, mask 1),
  both members are locked and the press of A stays pending, undispatched. The call at tick
  650 folds B into the mask, invokes the combo callback once, clears the pending events of
  both members, unlocks them and resets the window. In this run the only callback
  invocation is that one combo callback.
\<close>

lemma combo_within_window_triggers_once:
  "timeline_of pins_250 combo_AB = Some
    [(0, [], (KEY_EVENT_INIT, False), (KEY_EVENT_INIT, False), 0, 0),
     (50, [], (KEY_EVENT_INIT, False), (KEY_EVENT_INIT, False), 0, 0),
     (100, [], (KEY_EVENT_INIT, False), (KEY_EVENT_INIT, False), 0, 0),
     (150, [], (KEY_EVENT_INIT, False), (KEY_EVENT_INIT, False), 0, 0),
     (200, [], (KEY_EVENT_INIT, False), (KEY_EVENT_INIT, False), 0, 0),
     (250, [], (KEY_EVENT_INIT, False), (KEY_EVENT_INIT, False), 0, 0),
     (300, [], (KEY_EVENT_INIT, False), (KEY_EVENT_INIT, False), 0, 0),
     (350, [], (KEY_EVENT_INIT, False), (KEY_EVENT_INIT, False), 0, 0),
     (400, [], (KEY_EVENT_PRESSED, True), (KEY_EVENT_INIT, True), 400, 1),
     (450, [], (KEY_EVENT_PRESSED, True), (KEY_EVENT_INIT, True), 400, 1),
     (500, [], (KEY_EVENT_PRESSED, True), (KEY_EVENT_INIT, True), 400, 1),
     (550, [], (KEY_EVENT_PRESSED, True), (KEY_EVENT_INIT, True), 400, 1),
     (600, [], (KEY_EVENT_PRESSED, True), (KEY_EVENT_INIT, True), 400, 1),
     (650, [Comb_call 650 1 21 None], (KEY_EVENT_INIT, False), (KEY_EVENT_INIT, False), 0, 0),
     (700, [], (KEY_EVENT_INIT, False), (KEY_EVENT_INIT, False), 0, 0),
     (750, [], (KEY_EVENT_INIT, False), (KEY_EVENT_INIT, False), 0, 0),
     (800, [], (KEY_EVENT_INIT, False), (KEY_EVENT_INIT, False), 0, 0),
     (850, [], (KEY_EVENT_INIT, False), (KEY_EVENT_INIT, False), 0, 0),
     (900, [], (KEY_EVENT_INIT, False), (KEY_EVENT_INIT, False), 0, 0),
     (950, [], (KEY_EVENT_INIT, False), (KEY_EVENT_INIT, False), 0, 0),
     (1000, [], (KEY_EVENT_INIT, False), (KEY_EVENT_INIT, False), 0, 0),
     (1050, [], (KEY_EVENT_INIT, False), (KEY_EVENT_INIT, False), 0, 0),
     (1100, [], (KEY_EVENT_INIT, False), (KEY_EVENT_INIT, False), 0, 0),
     (1150, [], (KEY_EVENT_INIT, False), (KEY_EVENT_INIT, False), 0, 0),
     (1200, [], (KEY_EVENT_INIT, False), (KEY_EVENT_INIT, False), 0, 0)]"
  by (simp add: model_defs scenario_defs pins_250_def eval_simps)

text \<open>
  Claim C2 fails in the code when the match is completed by the member with the lower
  index. Both keys have a multi-click gap of 100 ms, the window is 300 ms. The press event of
  B opens the window at tick 200 (mask 2). The press event of A at tick 350 completes the
  mask at member index 0: the scan sets the trigger and resets mask and window start, but
  it goes on to member index 1, whose press event is still pending, and opens the window
  again (start 350, mask 2). The combo callback is invoked and both events are cleared,
  but the window stays open with the bit of B in it, and both members stay locked. Then a
  second pair of presses arrives, B within 300 ms of A. The press event of A at tick 550
  falls into the left-over window and completes the mask: the combo callback is invoked
  at tick 550 on the press of A alone. The press event of B follows at tick 800, 250 ms
  after that of A; it opens a window that nothing completes, and the call at tick 1150
  invokes the press callback of B. For the second pair the combo callback has run before
  B was pressed, and the press of B is dispatched individually.
\<close>

theorem stale_window_triggers_on_single_press:
  "timeline_of pins_stale combo_quick = Some
    [(0, [], (KEY_EVENT_INIT, False), (KEY_EVENT_INIT, False), 0, 0),
     (50, [], (KEY_EVENT_INIT, False), (KEY_EVENT_INIT, False), 0, 0),
     (100, [], (KEY_EVENT_INIT, False), (KEY_EVENT_INIT, False), 0, 0),
     (150, [], (KEY_EVENT_INIT, False), (KEY_EVENT_INIT, False), 0, 0),
     (200, [], (KEY_EVENT_INIT, True), (KEY_EVENT_PRESSED, True), 200, 2),
     (250, [], (KEY_EVENT_INIT, True), (KEY_EVENT_PRESSED, True), 200, 2),
     (300, [], (KEY_EVENT_INIT, True), (KEY_EVENT_PRESSED, True), 200, 2),
     (350, [Comb_call 350 1 21 None], (KEY_EVENT_INIT, False), (KEY_EVENT_INIT, False), 350, 2),
     (400, [], (KEY_EVENT_INIT, True), (KEY_EVENT_INIT, True), 350, 2),
     (450, [], (KEY_EVENT_INIT, True), (KEY_EVENT_INIT, True), 350, 2),
     (500, [], (KEY_EVENT_INIT, True), (KEY_EVENT_INIT, True), 350, 2),
     (550, [Comb_call 550 1 21 None], (KEY_EVENT_INIT, False), (KEY_EVENT_INIT, False), 0, 0),
     (600, [], (KEY_EVENT_INIT, False), (KEY_EVENT_INIT, False), 0, 0),
     (650, [], (KEY_EVENT_INIT, False), (KEY_EVENT_INIT, False), 0, 0),
     (700, [], (KEY_EVENT_INIT, False), (KEY_EVENT_INIT, False), 0, 0),
     (750, [], (KEY_EVENT_INIT, False), (KEY_EVENT_INIT, False), 0, 0),
     (800, [], (KEY_EVENT_INIT, True), (KEY_EVENT_PRESSED, True), 800, 2),
     (850, [], (KEY_EVENT_INIT, True), (KEY_EVENT_PRESSED, True), 800, 2),
     (900, [], (KEY_EVENT_INIT, True), (KEY_EVENT_PRESSED, True), 800, 2),
     (950, [], (KEY_EVENT_INIT, True), (KEY_EVENT_PRESSED, True), 800, 2),
     (1000, [], (KEY_EVENT_INIT, True), (KEY_EVENT_PRESSED, True), 800, 2),
     (1050, [], (KEY_EVENT_INIT, True), (KEY_EVENT_PRESSED, True), 800, 2),
     (1100, [], (KEY_EVENT_INIT, True), (KEY_EVENT_PRESSED, True), 800, 2),
     (1150, [Key_call 1150 2 KEY_EVENT_PRESSED 12 None], (KEY_EVENT_INIT, False), (KEY_EVENT_INIT, False), 0, 0),
     (1200, [], (KEY_EVENT_INIT, False), (KEY_EVENT_INIT, False), 0, 0)]"
  by (simp add: model_defs scenario_defs combo_quick_def NN_Key_SetPara_def set_para_def
      pins_stale_def eval_simps)

text \<open>
  On a system fresh from registration, with the press event of A raised at tick 400 and
  that of B at tick 800, 400 ms later: the window opened by A is still open at tick 700
  (700 - 400 = 300); the call at tick 750 finds it expired, discards mask and window start,
  unlocks both members, and the dispatcher of that same call invokes the press callback of
  A. The press of B at tick 800 opens a window of its own, and B is dispatched by the call
  at tick 1150 that finds this window expired.
\<close>

lemma combo_outside_window_dispatches_both:
  "timeline_of pins_400 combo_AB = Some
    [(0, [], (KEY_EVENT_INIT, False), (KEY_EVENT_INIT, False), 0, 0),
     (50, [], (KEY_EVENT_INIT, False), (KEY_EVENT_INIT, False), 0, 0),
     (100, [], (KEY_EVENT_INIT, False), (KEY_EVENT_INIT, False), 0, 0),
     (150, [], (KEY_EVENT_INIT, False), (KEY_EVENT_INIT, False), 0, 0),
     (200, [], (KEY_EVENT_INIT, False), (KEY_EVENT_INIT, False), 0, 0),
     (250, [], (KEY_EVENT_INIT, False), (KEY_EVENT_INIT, False), 0, 0),
     (300, [], (KEY_EVENT_INIT, False), (KEY_EVENT_INIT, False), 0, 0),
     (350, [], (KEY_EVENT_INIT, False), (KEY_EVENT_INIT, False), 0, 0),
     (400, [], (KEY_EVENT_PRESSED, True), (KEY_EVENT_INIT, True), 400, 1),
     (450, [], (KEY_EVENT_PRESSED, True), (KEY_EVENT_INIT, True), 400, 1),
     (500, [], (KEY_EVENT_PRESSED, True), (KEY_EVENT_INIT, True), 400, 1),
     (550, [], (KEY_EVENT_PRESSED, True), (KEY_EVENT_INIT, True), 400, 1),
     (600, [], (KEY_EVENT_PRESSED, True), (KEY_EVENT_INIT, True), 400, 1),
     (650, [], (KEY_EVENT_PRESSED, True), (KEY_EVENT_INIT, True), 400, 1),
     (700, [], (KEY_EVENT_PRESSED, True), (KEY_EVENT_INIT, True), 400, 1),
     (750, [Key_call 750 1 KEY_EVENT_PRESSED 11 None],
           (KEY_EVENT_INIT, False), (KEY_EVENT_INIT, False), 0, 0),
     (800, [], (KEY_EVENT_INIT, True), (KEY_EVENT_PRESSED, True), 800, 2),
     (850, [], (KEY_EVENT_INIT, True), (KEY_EVENT_PRESSED, True), 800, 2),
     (900, [], (KEY_EVENT_INIT, True), (KEY_EVENT_PRESSED, True), 800, 2),
     (950, [], (KEY_EVENT_INIT, True), (KEY_EVENT_PRESSED, True), 800, 2),
     (1000, [], (KEY_EVENT_INIT, True), (KEY_EVENT_PRESSED, True), 800, 2),
     (1050, [], (KEY_EVENT_INIT, True), (KEY_EVENT_PRESSED, True), 800, 2),
     (1100, [], (KEY_EVENT_INIT, True), (KEY_EVENT_PRESSED, True), 800, 2),
     (1150, [Key_call 1150 2 KEY_EVENT_PRESSED 12 None],
            (KEY_EVENT_INIT, False), (KEY_EVENT_INIT, False), 0, 0),
     (1200, [], (KEY_EVENT_INIT, False), (KEY_EVENT_INIT, False), 0, 0)]"
  by (simp add: model_defs scenario_defs pins_400_def eval_simps)


section \<open>The dispatcher, effect by effect\<close>

lemma NN_Key_Event_frame:
  "nn_key_list (snd (NN_Key_Event key tick s)) = nn_key_list s"
  "nn_combo_list (snd (NN_Key_Event key tick s)) = nn_combo_list s"
  "combs (snd (NN_Key_Event key tick s)) = combs s"
  by (auto simp: NN_Key_Event_def Let_def split: option.splits)

lemma NN_Key_Event_keys:
  "keys (snd (NN_Key_Event (Some p) tick s)) = keys s \<or>
   event (keys s p) \<noteq> KEY_EVENT_INIT \<and> event (keys s p) \<noteq> KEY_EVENT_LONG_PRESSED_ALWS \<and>
   keys (snd (NN_Key_Event (Some p) tick s)) = (keys s)(p := (keys s p)\<lparr>event := KEY_EVENT_INIT\<rparr>)"
  by (auto simp: NN_Key_Event_def Let_def split: option.splits)

lemma NN_Key_Event_calls:
  "calls (snd (NN_Key_Event (Some p) tick s)) = calls s \<or>
   (\<exists>f. registered (keys s p) (event (keys s p)) \<and> event (keys s p) \<noteq> KEY_EVENT_INIT \<and>
        func (callbacks (keys s p) (event (keys s p))) = Some f \<and>
        calls (snd (NN_Key_Event (Some p) tick s)) =
          calls s @ [Key_call tick p (event (keys s p)) f
                       (user_data (callbacks (keys s p) (event (keys s p))))])"
  by (auto simp: NN_Key_Event_def registered_def Let_def split: option.splits)

lemma NN_Key_Event_continuous:
  assumes "event (keys s p) = KEY_EVENT_LONG_PRESSED_ALWS"
  shows "NN_Key_Event (Some p) tick s =
    (True,
     case (if callback_mask (keys s p) AND event_bit KEY_EVENT_LONG_PRESSED_ALWS \<noteq> 0
           then func (callbacks (keys s p) KEY_EVENT_LONG_PRESSED_ALWS) else None) of
       None \<Rightarrow> s
     | Some f \<Rightarrow>
         if tick - LastTick s \<ge> KEY_LONG_PRESS_ALWS_CB
         then s\<lparr>LastTick := tick,
                calls := calls s @ [Key_call tick p KEY_EVENT_LONG_PRESSED_ALWS f
                  (user_data (callbacks (keys s p) KEY_EVENT_LONG_PRESSED_ALWS))]\<rparr>
         else s)"
  using assms by (auto simp: NN_Key_Event_def Let_def split: option.splits)

section \<open>The rate limiter\<close>

lemma limiter_ok_refl: "limiter_ok s s"
  by (simp add: limiter_ok_def new_calls_def spaced_def)

lemma new_calls_append: "calls s = calls s0 @ cs \<Longrightarrow> new_calls s0 s = cs"
  by (simp add: new_calls_def)

lemma limiter_ok_other:
  assumes "limiter_ok s0 s" "calls s1 = calls s @ [c]" "\<not> is_continuous c" "LastTick s1 = LastTick s"
  shows "limiter_ok s0 s1"
proof -
  from assms have "calls s1 = calls s0 @ (new_calls s0 s @ [c])" by (simp add: limiter_ok_def)
  then have "new_calls s0 s1 = new_calls s0 s @ [c]" by (rule new_calls_append)
  with assms show ?thesis by (simp add: limiter_ok_def spaced_def)
qed

lemma limiter_ok_same:
  assumes "limiter_ok s0 s" "calls s1 = calls s" "LastTick s1 = LastTick s"
  shows "limiter_ok s0 s1"
  using assms by (simp add: limiter_ok_def new_calls_def)

lemma limiter_ok_fire:
  assumes "limiter_ok s0 s" "calls s1 = calls s @ [c]" "is_continuous c" "call_tick c = tick"
    "LastTick s1 = tick" "tick - LastTick s \<ge> KEY_LONG_PRESS_ALWS_CB"
  shows "limiter_ok s0 s1"
proof -
  from assms have "calls s1 = calls s0 @ (new_calls s0 s @ [c])" by (simp add: limiter_ok_def)
  then have n: "new_calls s0 s1 = new_calls s0 s @ [c]" by (rule new_calls_append)
  with assms show ?thesis
    by (auto simp: limiter_ok_def spaced_def successively_append_iff split: if_splits)
qed

lemma NN_Key_Event_limiter:
  assumes ok: "limiter_ok s0 s"
  shows "limiter_ok s0 (snd (NN_Key_Event key tick s))"
proof (cases key)
  case None
  with ok show ?thesis by (simp add: NN_Key_Event_def)
next
  case (Some p)
  show ?thesis
  proof (cases "event (keys s p) = KEY_EVENT_LONG_PRESSED_ALWS")
    case True
    show ?thesis
      unfolding Some NN_Key_Event_continuous [OF True]
      using ok by (auto split: option.splits if_splits intro: limiter_ok_fire [OF ok])
  next
    case False
    have lt: "LastTick (snd (NN_Key_Event (Some p) tick s)) = LastTick s"
      using False by (auto simp: NN_Key_Event_def Let_def split: option.splits)
    from NN_Key_Event_calls [of p tick s] show ?thesis
    proof
      assume "calls (snd (NN_Key_Event (Some p) tick s)) = calls s"
      then show ?thesis unfolding Some using lt by (intro limiter_ok_same [OF ok])
    next
      assume "\<exists>f. registered (keys s p) (event (keys s p)) \<and> event (keys s p) \<noteq> KEY_EVENT_INIT \<and>
        func (callbacks (keys s p) (event (keys s p))) = Some f \<and>
        calls (snd (NN_Key_Event (Some p) tick s)) =
          calls s @ [Key_call tick p (event (keys s p)) f
                       (user_data (callbacks (keys s p) (event (keys s p))))]"
      then obtain f where c:
        "calls (snd (NN_Key_Event (Some p) tick s)) =
          calls s @ [Key_call tick p (event (keys s p)) f
                       (user_data (callbacks (keys s p) (event (keys s p))))]" by blast
      have nc: "\<not> is_continuous (Key_call tick p (event (keys s p)) f
                       (user_data (callbacks (keys s p) (event (keys s p)))))"
        using False by simp
      show ?thesis unfolding Some by (rule limiter_ok_other [OF ok c nc lt])
    qed
  qed
qed


lemma dispatch_run_continuous:
  assumes ev: "event (keys s0 p) = KEY_EVENT_LONG_PRESSED_ALWS"
    and mask: "callback_mask (keys s0 p) AND event_bit KEY_EVENT_LONG_PRESSED_ALWS \<noteq> 0"
    and fn: "func (callbacks (keys s0 p) KEY_EVENT_LONG_PRESSED_ALWS) = Some f"
    and inv: "keys s = keys s0" "limiter_ok s0 s"
      "\<forall>c \<in> set (new_calls s0 s).
         key_call_of p KEY_EVENT_LONG_PRESSED_ALWS f
              (user_data (callbacks (keys s0 p) KEY_EVENT_LONG_PRESSED_ALWS)) c"
  shows "keys (dispatch_run p ticks s) = keys s0 \<and> limiter_ok s0 (dispatch_run p ticks s) \<and>
         (\<forall>c \<in> set (new_calls s0 (dispatch_run p ticks s)).
            key_call_of p KEY_EVENT_LONG_PRESSED_ALWS f
              (user_data (callbacks (keys s0 p) KEY_EVENT_LONG_PRESSED_ALWS)) c)"
  using inv
proof (induction ticks arbitrary: s)
  case Nil
  then show ?case by simp
next
  case (Cons tick ticks)
  let ?s1 = "snd (NN_Key_Event (Some p) tick s)"
  from Cons.prems(1) ev have ev': "event (keys s p) = KEY_EVENT_LONG_PRESSED_ALWS" by simp
  have k: "keys ?s1 = keys s0"
    using Cons.prems(1) mask fn by (simp add: NN_Key_Event_continuous [OF ev'])
  have l: "limiter_ok s0 ?s1" using Cons.prems(2) by (rule NN_Key_Event_limiter)
  have app: "calls s = calls s0 @ new_calls s0 s"
    using Cons.prems(2) by (simp add: limiter_ok_def)
  have "calls ?s1 = calls s \<or>
        calls ?s1 = calls s @ [Key_call tick p KEY_EVENT_LONG_PRESSED_ALWS f
               (user_data (callbacks (keys s0 p) KEY_EVENT_LONG_PRESSED_ALWS))]"
    using Cons.prems(1) mask fn by (simp add: NN_Key_Event_continuous [OF ev'])
  then have "new_calls s0 ?s1 = new_calls s0 s \<or>
        new_calls s0 ?s1 = new_calls s0 s @ [Key_call tick p KEY_EVENT_LONG_PRESSED_ALWS f
               (user_data (callbacks (keys s0 p) KEY_EVENT_LONG_PRESSED_ALWS))]"
  proof
    assume "calls ?s1 = calls s"
    then have "calls ?s1 = calls s0 @ new_calls s0 s" using app by simp
    then show ?thesis by (simp add: new_calls_append)
  next
    assume "calls ?s1 = calls s @ [Key_call tick p KEY_EVENT_LONG_PRESSED_ALWS f
               (user_data (callbacks (keys s0 p) KEY_EVENT_LONG_PRESSED_ALWS))]"
    then have "calls ?s1 = calls s0 @ (new_calls s0 s @ [Key_call tick p KEY_EVENT_LONG_PRESSED_ALWS f
               (user_data (callbacks (keys s0 p) KEY_EVENT_LONG_PRESSED_ALWS))])"
      using app by simp
    then show ?thesis by (simp add: new_calls_append)
  qed
  with Cons.prems(3) have c: "\<forall>c \<in> set (new_calls s0 ?s1).
         key_call_of p KEY_EVENT_LONG_PRESSED_ALWS f
              (user_data (callbacks (keys s0 p) KEY_EVENT_LONG_PRESSED_ALWS)) c"
    by auto
  from Cons.IH [OF k l c] show ?case by simp
qed

text \<open>
  The dispatcher alone. Take a key whose pending event is the continuous long press and
  whose callback for it is registered, and call the dispatcher for it at any sequence of
  ticks. The dispatcher never writes to the key, so the pending event is still there after
  every call; all it invokes is that callback; and successive invocations are at least
  \<open>KEY_LONG_PRESS_ALWS_CB\<close> = 50 ticks apart. In the state machine, a key in the continuous
  state keeps the event while the button is read as pressed and goes to released, with the
  event cleared, when it is read as released.
\<close>

lemma dispatcher_keeps_continuous_event:
  assumes "event (keys s p) = KEY_EVENT_LONG_PRESSED_ALWS"
    and "callback_mask (keys s p) AND event_bit KEY_EVENT_LONG_PRESSED_ALWS \<noteq> 0"
    and "func (callbacks (keys s p) KEY_EVENT_LONG_PRESSED_ALWS) = Some f"
  shows "keys (dispatch_run p ticks s) = keys s \<and>
         spaced (new_calls s (dispatch_run p ticks s)) \<and>
         (\<forall>c \<in> set (new_calls s (dispatch_run p ticks s)).
            key_call_of p KEY_EVENT_LONG_PRESSED_ALWS f
              (user_data (callbacks (keys s p) KEY_EVENT_LONG_PRESSED_ALWS)) c) \<and>
         (state (keys s p) = KEY_STATE_LONG_PRESSED_ALWS \<longrightarrow>
            state_switch (keys s p) tick True = keys s p \<and>
            state_switch (keys s p) tick False =
              (keys s p)\<lparr>key_last_time := tick, state := KEY_STATE_RELEASED,
                         event := KEY_EVENT_INIT, multi_count := 0\<rparr>)"
proof -
  have "\<forall>c \<in> set (new_calls s s).
         key_call_of p KEY_EVENT_LONG_PRESSED_ALWS f
              (user_data (callbacks (keys s p) KEY_EVENT_LONG_PRESSED_ALWS)) c"
    by (simp add: new_calls_def)
  from dispatch_run_continuous [OF assms refl limiter_ok_refl this, of ticks]
  have "keys (dispatch_run p ticks s) = keys s" "limiter_ok s (dispatch_run p ticks s)"
    "\<forall>c \<in> set (new_calls s (dispatch_run p ticks s)).
            key_call_of p KEY_EVENT_LONG_PRESSED_ALWS f
              (user_data (callbacks (keys s p) KEY_EVENT_LONG_PRESSED_ALWS)) c"
    by blast+
  moreover have "state (keys s p) = KEY_STATE_LONG_PRESSED_ALWS \<longrightarrow>
            state_switch (keys s p) tick True = keys s p \<and>
            state_switch (keys s p) tick False =
              (keys s p)\<lparr>key_last_time := tick, state := KEY_STATE_RELEASED,
                         event := KEY_EVENT_INIT, multi_count := 0\<rparr>"
    using assms(1) by (simp add: state_switch_def)
  ultimately show ?thesis by (simp add: limiter_ok_def)
qed


lemmas held_defs = both_held_def hold_def two_keys_def boot_def NN_Key_Add_def NN_Key_Init_def
  fresh_key_def NN_Key_SetCb_def event_bit_def KEY_MAX_KEY_NUMBER_def Let_def

section \<open>Frame properties of the loops\<close>

lemma set_locks_apply:
  "set_locks b ms ks q = (if q \<in> set ms then (ks q)\<lparr>lock_flag := b\<rparr> else ks q)"
  unfolding set_locks_def
  by (induction ms arbitrary: ks) auto

lemma reset_members_apply:
  "reset_members ms ks q =
     (if q \<in> set ms then (ks q)\<lparr>event := KEY_EVENT_INIT, lock_flag := False\<rparr> else ks q)"
  unfolding reset_members_def
  by (induction ms arbitrary: ks) auto

lemma reset_locks_apply:
  "reset_locks ps ks q =
     (if q \<in> set ps \<and> is_member (ks q) then (ks q)\<lparr>lock_flag := False\<rparr> else ks q)"
  unfolding reset_locks_def
  by (induction ps arbitrary: ks) auto

lemma those_map_Some: "those xs = Some ys \<Longrightarrow> xs = map Some ys"
  by (induction xs arbitrary: ys) (auto split: option.splits)

lemma member_ptrs_subset:
  assumes "member_ptrs comb = Some ms" "q \<in> set ms"
  shows "Some q \<in> set (combo_member comb)"
proof -
  from assms(1) have "take (unat (combo_member_nbr comb)) (combo_member comb) = map Some ms"
    by (auto simp: member_ptrs_def Let_def dest: those_map_Some split: if_splits)
  with assms(2) have "Some q \<in> set (take (unat (combo_member_nbr comb)) (combo_member comb))"
    by simp
  then show ?thesis by (rule in_set_takeD)
qed

lemma combo_scan_fields:
  "combo_scan ks tick ms k (c, a) = (c', a') \<Longrightarrow>
   combo_member c' = combo_member c \<and> combo_member_nbr c' = combo_member_nbr c \<and>
   combo_value_excepted c' = combo_value_excepted c \<and> combo_window c' = combo_window c \<and>
   combo_cb c' = combo_cb c \<and> combo_id c' = combo_id c"
proof (induction ms arbitrary: k c a)
  case Nil
  then show ?case by simp
next
  case (Cons m ms)
  show ?case
  proof (cases "event (ks m) = KEY_EVENT_PRESSED")
    case False
    with Cons.prems have "combo_scan ks tick ms (Suc k) (c, a) = (c', a')" by simp
    from Cons.IH [OF this] show ?thesis .
  next
    case True
    with Cons.prems obtain c2 a2 where
      step: "combo_scan ks tick ms (Suc k) (c2, a2) = (c', a')"
      and same: "combo_member c2 = combo_member c \<and> combo_member_nbr c2 = combo_member_nbr c \<and>
        combo_value_excepted c2 = combo_value_excepted c \<and> combo_window c2 = combo_window c \<and>
        combo_cb c2 = combo_cb c \<and> combo_id c2 = combo_id c"
      by (auto simp: Let_def split: if_splits)
    from Cons.IH [OF step] same show ?thesis by simp
  qed
qed


lemma combo_body_effect:
  assumes "combo_body tick cp s = Some s1"
  shows "\<exists>ms. member_ptrs (combs s cp) = Some ms \<and>
    LastTick s1 = LastTick s \<and> nn_key_list s1 = nn_key_list s \<and>
    nn_combo_list s1 = nn_combo_list s \<and>
    (calls s1 = calls s \<or> (\<exists>f u. calls s1 = calls s @ [Comb_call tick cp f u])) \<and>
    (\<forall>q. q \<notin> set ms \<longrightarrow> keys s1 q = keys s q) \<and>
    (\<forall>q. keys s1 q = (keys s q)\<lparr>event := event (keys s1 q), lock_flag := lock_flag (keys s1 q)\<rparr>) \<and>
    (\<forall>q. event (keys s1 q) = event (keys s q) \<or> event (keys s1 q) = KEY_EVENT_INIT) \<and>
    (\<forall>c. c \<noteq> cp \<longrightarrow> combs s1 c = combs s c) \<and>
    combo_member (combs s1 cp) = combo_member (combs s cp) \<and>
    combo_member_nbr (combs s1 cp) = combo_member_nbr (combs s cp) \<and>
    combo_value_excepted (combs s1 cp) = combo_value_excepted (combs s cp) \<and>
    combo_window (combs s1 cp) = combo_window (combs s cp)"
proof -
  from assms obtain ms where ms: "member_ptrs (combs s cp) = Some ms"
    by (auto simp: combo_body_def Let_def split: option.splits)
  obtain c1 act where sc:
    "combo_scan (keys s) tick ms 0 (combs s cp, combo_mem_first (combs s cp) > 0) = (c1, act)"
    by (cases "combo_scan (keys s) tick ms 0 (combs s cp, combo_mem_first (combs s cp) > 0)")
  note f = combo_scan_fields [OF sc]
  define ks1 where "ks1 = (if act then set_locks True ms (keys s) else keys s)"
  define ks2 where "ks2 = (if combo_trigger c1 then reset_members ms ks1 else ks1)"
  define c2 where "c2 = (if combo_trigger c1 then c1\<lparr>combo_trigger := False\<rparr> else c1)"
  define calls2 where "calls2 =
     (if combo_trigger c1
      then (case func (combo_cb c1) of None \<Rightarrow> calls s
            | Some f \<Rightarrow> calls s @ [Comb_call tick cp f (user_data (combo_cb c1))])
      else calls s)"
  define expired where
    "expired = (combo_mem_first c2 \<noteq> 0 \<and> tick - combo_mem_first c2 > ucast (combo_window c2))"
  define c3 where "c3 = (if expired then c2\<lparr>combo_mem_first := 0, combo_value_now := 0\<rparr> else c2)"
  define ks3 where "ks3 = (if expired then set_locks False ms ks2 else ks2)"
  have s1: "s1 = s\<lparr>combs := (combs s)(cp := c3), keys := ks3, calls := calls2\<rparr>"
    using assms ms sc
    by (auto simp: combo_body_def Let_def ks1_def ks2_def c2_def calls2_def expired_def c3_def ks3_def
        split: if_splits)
  have "LastTick s1 = LastTick s" "nn_key_list s1 = nn_key_list s"
    "nn_combo_list s1 = nn_combo_list s"
    by (simp_all add: s1)
  moreover have "calls s1 = calls s \<or> (\<exists>f u. calls s1 = calls s @ [Comb_call tick cp f u])"
    by (auto simp: s1 calls2_def split: option.splits)
  moreover have "\<forall>q. q \<notin> set ms \<longrightarrow> keys s1 q = keys s q"
    by (simp add: s1 ks3_def ks2_def ks1_def set_locks_apply reset_members_apply)
  moreover have "\<forall>q. keys s1 q = (keys s q)\<lparr>event := event (keys s1 q), lock_flag := lock_flag (keys s1 q)\<rparr>"
    by (simp add: s1 ks3_def ks2_def ks1_def set_locks_apply reset_members_apply)
  moreover have "\<forall>q. event (keys s1 q) = event (keys s q) \<or> event (keys s1 q) = KEY_EVENT_INIT"
    by (simp add: s1 ks3_def ks2_def ks1_def set_locks_apply reset_members_apply)
  moreover have "\<forall>c. c \<noteq> cp \<longrightarrow> combs s1 c = combs s c"
    by (simp add: s1)
  moreover have "combo_member (combs s1 cp) = combo_member (combs s cp)"
      "combo_member_nbr (combs s1 cp) = combo_member_nbr (combs s cp)"
      "combo_value_excepted (combs s1 cp) = combo_value_excepted (combs s cp)"
      "combo_window (combs s1 cp) = combo_window (combs s cp)"
    using f by (simp_all add: s1 c3_def c2_def)
  ultimately show ?thesis using ms by blast
qed

lemma combo_body_frame:
  assumes "combo_body tick cp s = Some s1"
  shows "LastTick s1 = LastTick s" "nn_key_list s1 = nn_key_list s"
    "nn_combo_list s1 = nn_combo_list s"
    "combo_member (combs s1 c) = combo_member (combs s c)"
    "combo_member_nbr (combs s1 c) = combo_member_nbr (combs s c)"
    "combo_value_excepted (combs s1 c) = combo_value_excepted (combs s c)"
    "combo_window (combs s1 c) = combo_window (combs s c)"
  using combo_body_effect [OF assms] by (cases "c = cp"; auto)+

lemma combo_body_calls:
  assumes "combo_body tick cp s = Some s1"
  shows "calls s1 = calls s \<or> (\<exists>f u. calls s1 = calls s @ [Comb_call tick cp f u])"
  using combo_body_effect [OF assms] by blast

lemma combo_body_keys:
  assumes "combo_body tick cp s = Some s1"
  shows "keys s1 q = (keys s q)\<lparr>event := event (keys s1 q), lock_flag := lock_flag (keys s1 q)\<rparr>"
    "event (keys s1 q) = event (keys s q) \<or> event (keys s1 q) = KEY_EVENT_INIT"
    "Some q \<notin> set (combo_member (combs s cp)) \<Longrightarrow> keys s1 q = keys s q"
proof -
  from combo_body_effect [OF assms] obtain ms where ms: "member_ptrs (combs s cp) = Some ms"
    and other: "\<forall>q. q \<notin> set ms \<longrightarrow> keys s1 q = keys s q"
    and core: "\<forall>q. keys s1 q = (keys s q)\<lparr>event := event (keys s1 q), lock_flag := lock_flag (keys s1 q)\<rparr>"
    and ev: "\<forall>q. event (keys s1 q) = event (keys s q) \<or> event (keys s1 q) = KEY_EVENT_INIT"
    by blast
  from core show "keys s1 q = (keys s q)\<lparr>event := event (keys s1 q), lock_flag := lock_flag (keys s1 q)\<rparr>" ..
  from ev show "event (keys s1 q) = event (keys s q) \<or> event (keys s1 q) = KEY_EVENT_INIT" ..
  show "keys s1 q = keys s q" if "Some q \<notin> set (combo_member (combs s cp))"
  proof -
    from that ms have "q \<notin> set ms" by (auto dest: member_ptrs_subset)
    with other show ?thesis by simp
  qed
qed

lemma combo_loop_frame:
  "combo_loop tick cps s = Some s' \<Longrightarrow>
   LastTick s' = LastTick s \<and> nn_key_list s' = nn_key_list s \<and>
   nn_combo_list s' = nn_combo_list s \<and>
   (\<forall>c. combo_member (combs s' c) = combo_member (combs s c) \<and>
        combo_member_nbr (combs s' c) = combo_member_nbr (combs s c) \<and>
        combo_value_excepted (combs s' c) = combo_value_excepted (combs s c) \<and>
        combo_window (combs s' c) = combo_window (combs s c))"
proof (induction cps arbitrary: s)
  case Nil
  then show ?case by simp
next
  case (Cons cp cps)
  from Cons.prems obtain s1 where b: "combo_body tick cp s = Some s1"
    and l: "combo_loop tick cps s1 = Some s'"
    by (auto split: option.splits)
  from Cons.IH [OF l] show ?case by (simp add: combo_body_frame [OF b])
qed

lemma combo_loop_keys:
  "combo_loop tick cps s = Some s' \<Longrightarrow>
   keys s' q = (keys s q)\<lparr>event := event (keys s' q), lock_flag := lock_flag (keys s' q)\<rparr> \<and>
   (event (keys s' q) = event (keys s q) \<or> event (keys s' q) = KEY_EVENT_INIT) \<and>
   ((\<forall>cp \<in> set cps. Some q \<notin> set (combo_member (combs s cp))) \<longrightarrow> keys s' q = keys s q)"
proof (induction cps arbitrary: s)
  case Nil
  then show ?case by simp
next
  case (Cons cp cps)
  from Cons.prems obtain s1 where b: "combo_body tick cp s = Some s1"
    and l: "combo_loop tick cps s1 = Some s'"
    by (auto split: option.splits)
  note k = combo_body_keys [OF b, of q] and ih = Cons.IH [OF l]
  have 1: "keys s' q = (keys s q)\<lparr>event := event (keys s' q), lock_flag := lock_flag (keys s' q)\<rparr>"
  proof -
    from ih have "keys s' q = (keys s1 q)\<lparr>event := event (keys s' q), lock_flag := lock_flag (keys s' q)\<rparr>"
      by simp
    also have "keys s1 q = (keys s q)\<lparr>event := event (keys s1 q), lock_flag := lock_flag (keys s1 q)\<rparr>"
      by (rule k(1))
    finally show ?thesis by simp
  qed
  have 2: "event (keys s' q) = event (keys s q) \<or> event (keys s' q) = KEY_EVENT_INIT"
    using ih k(2) by auto
  have 3: "keys s' q = keys s q"
    if "\<forall>c \<in> set (cp # cps). Some q \<notin> set (combo_member (combs s c))"
  proof -
    from that have "keys s1 q = keys s q" by (intro k(3)) simp
    moreover from that have "\<forall>c \<in> set cps. Some q \<notin> set (combo_member (combs s1 c))"
      by (simp add: combo_body_frame [OF b])
    with ih have "keys s' q = keys s1 q" by simp
    ultimately show ?thesis by simp
  qed
  from 1 2 3 show ?case by blast
qed

section \<open>The log across the loops\<close>

lemma log_inv_refl: "log_inv P s s"
  by (simp add: log_inv_def new_calls_def)

lemma log_inv_same:
  assumes "log_inv P s0 s" "calls s1 = calls s"
  shows "log_inv P s0 s1"
  using assms by (simp add: log_inv_def new_calls_def)

lemma log_inv_snoc:
  assumes "log_inv P s0 s" "calls s1 = calls s @ [c]" "P c"
  shows "log_inv P s0 s1"
proof -
  from assms have "calls s1 = calls s0 @ (new_calls s0 s @ [c])" by (simp add: log_inv_def)
  then have "new_calls s0 s1 = new_calls s0 s @ [c]" by (rule new_calls_append)
  with assms show ?thesis by (simp add: log_inv_def)
qed

lemma combo_body_log:
  assumes "combo_body tick cp s = Some s1" "\<forall>t c f u. P (Comb_call t c f u)"
  shows "log_inv P s0 s \<Longrightarrow> log_inv P s0 s1" "limiter_ok s0 s \<Longrightarrow> limiter_ok s0 s1"
proof -
  note c = combo_body_calls [OF assms(1)] and f = combo_body_frame(1) [OF assms(1)]
  show "log_inv P s0 s1" if "log_inv P s0 s"
    using c
  proof
    assume "calls s1 = calls s"
    with that show ?thesis by (rule log_inv_same)
  next
    assume "\<exists>f u. calls s1 = calls s @ [Comb_call tick cp f u]"
    then obtain g u where g: "calls s1 = calls s @ [Comb_call tick cp g u]" by blast
    from assms(2) have "P (Comb_call tick cp g u)" by blast
    with that g show ?thesis by (rule log_inv_snoc)
  qed
  show "limiter_ok s0 s1" if "limiter_ok s0 s"
    using c
  proof
    assume "calls s1 = calls s"
    with that show ?thesis using f by (rule limiter_ok_same)
  next
    assume "\<exists>f u. calls s1 = calls s @ [Comb_call tick cp f u]"
    then obtain g u where g: "calls s1 = calls s @ [Comb_call tick cp g u]" by blast
    have "\<not> is_continuous (Comb_call tick cp g u)" by simp
    with that g show ?thesis using f by (rule limiter_ok_other)
  qed
qed

lemma combo_loop_log:
  assumes "\<forall>t c f u. P (Comb_call t c f u)"
  shows "combo_loop tick cps s = Some s' \<Longrightarrow> log_inv P s0 s \<Longrightarrow> log_inv P s0 s'"
proof (induction cps arbitrary: s)
  case Nil
  then show ?case by simp
next
  case (Cons cp cps)
  from Cons.prems(1) obtain s1 where b: "combo_body tick cp s = Some s1"
    and l: "combo_loop tick cps s1 = Some s'"
    by (auto split: option.splits)
  from combo_body_log(1) [OF b assms Cons.prems(2)] have "log_inv P s0 s1" .
  from Cons.IH [OF l this] show ?case .
qed

lemma combo_loop_limiter:
  "combo_loop tick cps s = Some s' \<Longrightarrow> limiter_ok s0 s \<Longrightarrow> limiter_ok s0 s'"
proof (induction cps arbitrary: s)
  case Nil
  then show ?case by simp
next
  case (Cons cp cps)
  from Cons.prems(1) obtain s1 where b: "combo_body tick cp s = Some s1"
    and l: "combo_loop tick cps s1 = Some s'"
    by (auto split: option.splits)
  have "\<forall>t c f u. (\<lambda>c. True) (Comb_call t c f u)" by simp
  from combo_body_log(2) [OF b this Cons.prems(2)] have "limiter_ok s0 s1" .
  from Cons.IH [OF l this] show ?case .
qed

section \<open>The dispatch loop\<close>

lemma dispatch_keys_append:
  "dispatch_keys tick (xs @ ys) rs = dispatch_keys tick ys (dispatch_keys tick xs rs)"
proof (induction xs arbitrary: rs)
  case Nil
  then show ?case by (cases rs) simp
next
  case (Cons p xs)
  obtain r s where rs: "rs = (r, s)" by (cases rs)
  show ?case by (simp add: rs Cons.IH split: prod.splits)
qed

lemma dispatch_keys_frame:
  "nn_key_list (snd (dispatch_keys tick ps (r, s))) = nn_key_list s \<and>
   nn_combo_list (snd (dispatch_keys tick ps (r, s))) = nn_combo_list s \<and>
   combs (snd (dispatch_keys tick ps (r, s))) = combs s"
proof (induction ps arbitrary: r s)
  case Nil
  then show ?case by simp
next
  case (Cons p ps)
  show ?case
  proof (cases "lock_flag (keys s p)")
    case True
    then show ?thesis using Cons.IH [of r s] by simp
  next
    case False
    obtain r1 s1 where e: "NN_Key_Event (Some p) tick s = (r1, s1)"
      by (cases "NN_Key_Event (Some p) tick s")
    from NN_Key_Event_frame [of "Some p" tick s] e
    have "nn_key_list s1 = nn_key_list s" "nn_combo_list s1 = nn_combo_list s" "combs s1 = combs s"
      by simp_all
    with Cons.IH [of "r \<and> r1" s1] False e show ?thesis by simp
  qed
qed

lemma dispatch_keys_limiter:
  "limiter_ok s0 s \<Longrightarrow> limiter_ok s0 (snd (dispatch_keys tick ps (r, s)))"
proof (induction ps arbitrary: r s)
  case Nil
  then show ?case by simp
next
  case (Cons p ps)
  show ?case
  proof (cases "lock_flag (keys s p)")
    case True
    then show ?thesis using Cons by simp
  next
    case False
    obtain r1 s1 where e: "NN_Key_Event (Some p) tick s = (r1, s1)"
      by (cases "NN_Key_Event (Some p) tick s")
    from NN_Key_Event_limiter [OF Cons.prems, of "Some p" tick] e have "limiter_ok s0 s1" by simp
    from Cons.IH [OF this, of "r \<and> r1"] False e show ?thesis by simp
  qed
qed

text \<open>A key whose pending event is the continuous long press is left as it is.\<close>

lemma dispatch_keys_keeps_continuous:
  "event (keys s a) = KEY_EVENT_LONG_PRESSED_ALWS \<Longrightarrow>
   keys (snd (dispatch_keys tick ps (r, s))) a = keys s a"
proof (induction ps arbitrary: r s)
  case Nil
  then show ?case by simp
next
  case (Cons p ps)
  show ?case
  proof (cases "lock_flag (keys s p)")
    case True
    then show ?thesis using Cons by simp
  next
    case False
    obtain r1 s1 where e: "NN_Key_Event (Some p) tick s = (r1, s1)"
      by (cases "NN_Key_Event (Some p) tick s")
    have k: "keys s1 a = keys s a"
    proof (cases "a = p")
      case True
      with NN_Key_Event_keys [of p tick s] e Cons.prems show ?thesis by simp
    next
      case False
      with NN_Key_Event_keys [of p tick s] e show ?thesis by auto
    qed
    with Cons.prems have "event (keys s1 a) = KEY_EVENT_LONG_PRESSED_ALWS" by simp
    from Cons.IH [OF this, of "r \<and> r1"] k False e show ?thesis by simp
  qed
qed


lemma NN_Key_Event_LastTick:
  "event (keys s p) \<noteq> KEY_EVENT_LONG_PRESSED_ALWS \<Longrightarrow>
   LastTick (snd (NN_Key_Event (Some p) tick s)) = LastTick s"
  by (auto simp: NN_Key_Event_def Let_def split: option.splits)

lemma NN_Key_Event_quiet:
  assumes "\<not> tick - LastTick s \<ge> KEY_LONG_PRESS_ALWS_CB" "log_inv (only_from A) s0 s"
  shows "LastTick (snd (NN_Key_Event (Some p) tick s)) = LastTick s \<and>
         log_inv (only_from A) s0 (snd (NN_Key_Event (Some p) tick s))"
proof (cases "event (keys s p) = KEY_EVENT_LONG_PRESSED_ALWS")
  case True
  have "snd (NN_Key_Event (Some p) tick s) = s"
    using assms(1) by (simp add: NN_Key_Event_continuous [OF True] split: option.splits)
  with assms(2) show ?thesis by simp
next
  case False
  note lt = NN_Key_Event_LastTick [OF False, of tick]
  from NN_Key_Event_calls [of p tick s]
  have "log_inv (only_from A) s0 (snd (NN_Key_Event (Some p) tick s))"
  proof
    assume "calls (snd (NN_Key_Event (Some p) tick s)) = calls s"
    with assms(2) show ?thesis by (rule log_inv_same)
  next
    assume "\<exists>f. registered (keys s p) (event (keys s p)) \<and> event (keys s p) \<noteq> KEY_EVENT_INIT \<and>
        func (callbacks (keys s p) (event (keys s p))) = Some f \<and>
        calls (snd (NN_Key_Event (Some p) tick s)) =
          calls s @ [Key_call tick p (event (keys s p)) f
                       (user_data (callbacks (keys s p) (event (keys s p))))]"
    then obtain f where c: "calls (snd (NN_Key_Event (Some p) tick s)) =
          calls s @ [Key_call tick p (event (keys s p)) f
                       (user_data (callbacks (keys s p) (event (keys s p))))]" by blast
    have "only_from A (Key_call tick p (event (keys s p)) f
                       (user_data (callbacks (keys s p) (event (keys s p)))))"
      using False by simp
    with assms(2) c show ?thesis by (rule log_inv_snoc)
  qed
  with lt show ?thesis by simp
qed

lemma NN_Key_Event_from:
  assumes "p \<in> A" "log_inv (only_from A) s0 s"
  shows "log_inv (only_from A) s0 (snd (NN_Key_Event (Some p) tick s))"
  using NN_Key_Event_calls [of p tick s]
proof
  assume "calls (snd (NN_Key_Event (Some p) tick s)) = calls s"
  with assms(2) show ?thesis by (rule log_inv_same)
next
  assume "\<exists>f. registered (keys s p) (event (keys s p)) \<and> event (keys s p) \<noteq> KEY_EVENT_INIT \<and>
      func (callbacks (keys s p) (event (keys s p))) = Some f \<and>
      calls (snd (NN_Key_Event (Some p) tick s)) =
        calls s @ [Key_call tick p (event (keys s p)) f
                     (user_data (callbacks (keys s p) (event (keys s p))))]"
  then obtain f where c: "calls (snd (NN_Key_Event (Some p) tick s)) =
        calls s @ [Key_call tick p (event (keys s p)) f
                     (user_data (callbacks (keys s p) (event (keys s p))))]" by blast
  have "only_from A (Key_call tick p (event (keys s p)) f
                     (user_data (callbacks (keys s p) (event (keys s p)))))"
    using assms(1) by simp
  with assms(2) c show ?thesis by (rule log_inv_snoc)
qed

lemma dispatch_keys_quiet:
  "\<not> tick - LastTick s \<ge> KEY_LONG_PRESS_ALWS_CB \<Longrightarrow> log_inv (only_from A) s0 s \<Longrightarrow>
   log_inv (only_from A) s0 (snd (dispatch_keys tick ps (r, s)))"
proof (induction ps arbitrary: r s)
  case Nil
  then show ?case by simp
next
  case (Cons p ps)
  show ?case
  proof (cases "lock_flag (keys s p)")
    case True
    then show ?thesis using Cons by simp
  next
    case False
    obtain r1 s1 where e: "NN_Key_Event (Some p) tick s = (r1, s1)"
      by (cases "NN_Key_Event (Some p) tick s")
    from NN_Key_Event_quiet [OF Cons.prems, of p] e
    have "\<not> tick - LastTick s1 \<ge> KEY_LONG_PRESS_ALWS_CB" "log_inv (only_from A) s0 s1"
      using Cons.prems(1) by simp_all
    from Cons.IH [OF this, of "r \<and> r1"] False e show ?thesis by simp
  qed
qed

lemma dispatch_keys_from:
  "set xs \<subseteq> A \<Longrightarrow> log_inv (only_from A) s0 s \<Longrightarrow>
   log_inv (only_from A) s0 (snd (dispatch_keys tick xs (r, s)))"
proof (induction xs arbitrary: r s)
  case Nil
  then show ?case by simp
next
  case (Cons p xs)
  show ?case
  proof (cases "lock_flag (keys s p)")
    case True
    then show ?thesis using Cons by simp
  next
    case False
    obtain r1 s1 where e: "NN_Key_Event (Some p) tick s = (r1, s1)"
      by (cases "NN_Key_Event (Some p) tick s")
    from Cons.prems have "p \<in> A" "set xs \<subseteq> A" by simp_all
    from NN_Key_Event_from [OF \<open>p \<in> A\<close> Cons.prems(2), of tick] e
    have "log_inv (only_from A) s0 s1" by simp
    from Cons.IH [OF \<open>set xs \<subseteq> A\<close> this, of "r \<and> r1"] False e show ?thesis by simp
  qed
qed

text \<open>
  The dispatch loop when the key \<open>a\<close> is held: once \<open>a\<close> has been visited the rate limiter
  is closed for this tick, so no key after \<open>a\<close> gets its continuous callback.
\<close>

lemma dispatch_keys_held:
  assumes h: "held rd f (keys s a)" and ev: "event (keys s a) = KEY_EVENT_LONG_PRESSED_ALWS"
    and log: "log_inv (only_from (set (xs @ [a]))) s0 s"
  shows "log_inv (only_from (set (xs @ [a]))) s0 (snd (dispatch_keys tick (xs @ a # ps) (r, s))) \<and>
         keys (snd (dispatch_keys tick (xs @ a # ps) (r, s))) a = keys s a"
proof -
  let ?A = "set (xs @ [a])"
  obtain r4 s4 where d4: "dispatch_keys tick xs (r, s) = (r4, s4)"
    by (cases "dispatch_keys tick xs (r, s)")
  have k4: "keys s4 a = keys s a"
    using dispatch_keys_keeps_continuous [OF ev, of tick xs r] d4 by simp
  have "set xs \<subseteq> ?A" by auto
  from dispatch_keys_from [OF this log, of tick r] d4
  have l4: "log_inv (only_from ?A) s0 s4" by simp
  from k4 ev have ev4: "event (keys s4 a) = KEY_EVENT_LONG_PRESSED_ALWS" by simp
  from k4 h have h4: "held rd f (keys s4 a)" by simp
  obtain r5 s5 where d5: "NN_Key_Event (Some a) tick s4 = (r5, s5)"
    by (cases "NN_Key_Event (Some a) tick s4")
  have cb: "KEY_LONG_PRESS_ALWS_CB \<noteq> 0" by (simp add: KEY_LONG_PRESS_ALWS_CB_def)
  have s5: "s5 = (if tick - LastTick s4 \<ge> KEY_LONG_PRESS_ALWS_CB
                  then s4\<lparr>LastTick := tick,
                        calls := calls s4 @ [Key_call tick a KEY_EVENT_LONG_PRESSED_ALWS f
                          (user_data (callbacks (keys s4 a) KEY_EVENT_LONG_PRESSED_ALWS))]\<rparr>
                  else s4)"
    using d5 h4 by (simp add: NN_Key_Event_continuous [OF ev4] held_def)
  have q5: "\<not> tick - LastTick s5 \<ge> KEY_LONG_PRESS_ALWS_CB"
    using cb by (simp add: s5 word_le_nat_alt unat_eq_zero)
  have k5: "keys s5 = keys s4" by (simp add: s5)
  have "a \<in> ?A" by simp
  from NN_Key_Event_from [OF this l4, of tick] d5
  have l5: "log_inv (only_from ?A) s0 s5" by simp
  have unl: "\<not> lock_flag (keys s4 a)" using h4 by (simp add: held_def)
  have split: "dispatch_keys tick (xs @ a # ps) (r, s) = dispatch_keys tick ps (r4 \<and> r5, s5)"
    using d4 d5 unl by (simp add: dispatch_keys_append)
  from k5 ev4 have ev5: "event (keys s5 a) = KEY_EVENT_LONG_PRESSED_ALWS" by simp
  have "keys (snd (dispatch_keys tick ps (r4 \<and> r5, s5))) a = keys s5 a"
    by (rule dispatch_keys_keeps_continuous [OF ev5])
  moreover have "log_inv (only_from ?A) s0 (snd (dispatch_keys tick ps (r4 \<and> r5, s5)))"
    by (rule dispatch_keys_quiet [OF q5 l5])
  ultimately show ?thesis using split k5 k4 by simp
qed

section \<open>The state machine loop\<close>

lemma update_keys_other:
  "update_keys pins tick ps ks = Some ks' \<Longrightarrow> q \<notin> set ps \<Longrightarrow> ks' q = ks q"
proof (induction ps arbitrary: ks)
  case Nil
  then show ?case by simp
next
  case (Cons p ps)
  from Cons.prems(1) obtain k where k: "NN_Key_StateMachine pins (ks p) tick = Some k"
    and rest: "update_keys pins tick ps (ks(p := k)) = Some ks'"
    by (auto split: option.splits)
  from Cons.IH [OF rest] Cons.prems(2) show ?case by simp
qed

lemma update_keys_invariant:
  assumes step: "\<And>k rd. P k \<Longrightarrow> key_read k = Some rd \<Longrightarrow> P (state_switch k tick (pins rd))"
  shows "update_keys pins tick ps ks = Some ks' \<Longrightarrow> P (ks q) \<Longrightarrow> P (ks' q)"
proof (induction ps arbitrary: ks)
  case Nil
  then show ?case by simp
next
  case (Cons p ps)
  from Cons.prems(1) obtain rd where rd: "key_read (ks p) = Some rd"
    and rest: "update_keys pins tick ps (ks(p := state_switch (ks p) tick (pins rd))) = Some ks'"
    by (auto simp: NN_Key_StateMachine_def split: option.splits)
  have "P ((ks(p := state_switch (ks p) tick (pins rd))) q)"
    using Cons.prems(2) rd by (auto intro: step)
  from Cons.IH [OF rest this] show ?case .
qed

lemma update_keys_establish:
  assumes step: "\<And>k rd. P k \<Longrightarrow> key_read k = Some rd \<Longrightarrow> Q (state_switch k tick (pins rd))"
    and weaken: "\<And>k. Q k \<Longrightarrow> P k"
  shows "update_keys pins tick ps ks = Some ks' \<Longrightarrow> P (ks q) \<Longrightarrow> q \<in> set ps \<Longrightarrow> Q (ks' q)"
proof (induction ps arbitrary: ks)
  case Nil
  then show ?case by simp
next
  case (Cons p ps)
  from Cons.prems(1) obtain rd where rd: "key_read (ks p) = Some rd"
    and rest: "update_keys pins tick ps (ks(p := state_switch (ks p) tick (pins rd))) = Some ks'"
    by (auto simp: NN_Key_StateMachine_def split: option.splits)
  let ?ks1 = "ks(p := state_switch (ks p) tick (pins rd))"
  have keepQ: "\<And>k rd. Q k \<Longrightarrow> key_read k = Some rd \<Longrightarrow> Q (state_switch k tick (pins rd))"
    by (rule step) (erule weaken)
  show ?case
  proof (cases "q = p")
    case True
    with Cons.prems(2) rd have "Q (?ks1 q)" by (simp add: step)
    from update_keys_invariant [of Q, OF keepQ rest this] show ?thesis .
  next
    case False
    with Cons.prems have "P (?ks1 q)" "q \<in> set ps" by simp_all
    from Cons.IH [OF rest this] show ?thesis .
  qed
qed

lemma held_state_switch:
  assumes "held rd f k"
  shows "held rd f (state_switch k tick True) \<and>
         event (state_switch k tick True) = KEY_EVENT_LONG_PRESSED_ALWS"
  using assms by (simp add: held_def state_switch_def)


section \<open>One handler call\<close>

lemma handler_phases:
  assumes "NN_Key_Handler pins tick s = Some (r, s1)"
  shows "\<exists>ks2 s3.
     update_keys pins tick (nn_key_list s) (reset_locks (nn_key_list s) (keys s)) = Some ks2 \<and>
     combo_loop tick (nn_combo_list s) (s\<lparr>keys := ks2\<rparr>) = Some s3 \<and>
     nn_key_list s3 = nn_key_list s \<and>
     dispatch_keys tick (nn_key_list s) (True, s3) = (r, s1)"
proof -
  from assms obtain ks2 s3 where
    u: "update_keys pins tick (nn_key_list s) (reset_locks (nn_key_list s) (keys s)) = Some ks2"
    and c: "combo_loop tick (nn_combo_list s) (s\<lparr>keys := ks2\<rparr>) = Some s3"
    and d: "dispatch_keys tick (nn_key_list s3) (True, s3) = (r, s1)"
    by (auto simp: NN_Key_Handler_def NN_Combo_Process_def Let_def split: option.splits)
  from combo_loop_frame [OF c] have "nn_key_list s3 = nn_key_list s" by simp
  with u c d show ?thesis by auto
qed

lemma handler_limiter:
  assumes "NN_Key_Handler pins tick s = Some (r, s1)" "limiter_ok s0 s"
  shows "limiter_ok s0 s1"
proof -
  from handler_phases [OF assms(1)] obtain ks2 s3 where
    c: "combo_loop tick (nn_combo_list s) (s\<lparr>keys := ks2\<rparr>) = Some s3"
    and d: "dispatch_keys tick (nn_key_list s) (True, s3) = (r, s1)"
    by blast
  have l: "limiter_ok s0 (s\<lparr>keys := ks2\<rparr>)"
    using assms(2) by (rule limiter_ok_same) simp_all
  from combo_loop_limiter [OF c l] have "limiter_ok s0 s3" .
  from dispatch_keys_limiter [OF this, of tick "nn_key_list s" True] d show ?thesis by simp
qed

lemma run_limiter:
  "run sched s = Some s' \<Longrightarrow> limiter_ok s0 s \<Longrightarrow> limiter_ok s0 s'"
proof (induction sched arbitrary: s)
  case Nil
  then show ?case by simp
next
  case (Cons a sched)
  obtain tick pins where a: "a = (tick, pins)" by (cases a)
  from Cons.prems(1) obtain r s1 where h: "NN_Key_Handler pins tick s = Some (r, s1)"
    and rest: "run sched s1 = Some s'"
    by (auto simp: a split: option.splits)
  from handler_limiter [OF h Cons.prems(2)] have "limiter_ok s0 s1" .
  from Cons.IH [OF rest this] show ?case .
qed

text \<open>What a handler call preserves while the key \<open>a\<close> is held down.\<close>

lemma handler_held:
  assumes h: "NN_Key_Handler pins tick s = Some (r, s1)"
    and lst: "nn_key_list s = xs @ a # ps"
    and nm: "\<forall>cp \<in> set (nn_combo_list s). Some a \<notin> set (combo_member (combs s cp))"
    and hd: "held rd f (keys s a)"
    and pin: "pins rd"
    and log: "log_inv (only_from (set (xs @ [a]))) s0 s"
  shows "nn_key_list s1 = xs @ a # ps \<and>
         (\<forall>cp \<in> set (nn_combo_list s1). Some a \<notin> set (combo_member (combs s1 cp))) \<and>
         held rd f (keys s1 a) \<and> log_inv (only_from (set (xs @ [a]))) s0 s1"
proof -
  let ?A = "set (xs @ [a])"
  from handler_phases [OF h] obtain ks2 s3 where
    u: "update_keys pins tick (nn_key_list s) (reset_locks (nn_key_list s) (keys s)) = Some ks2"
    and c: "combo_loop tick (nn_combo_list s) (s\<lparr>keys := ks2\<rparr>) = Some s3"
    and d: "dispatch_keys tick (nn_key_list s) (True, s3) = (r, s1)"
    by blast
  have h1: "held rd f (reset_locks (nn_key_list s) (keys s) a)"
    using hd by (simp add: reset_locks_apply held_def)
  have a_in: "a \<in> set (nn_key_list s)" by (simp add: lst)
  have step: "\<And>k rd'. held rd f k \<Longrightarrow> key_read k = Some rd' \<Longrightarrow>
      held rd f (state_switch k tick (pins rd')) \<and>
      event (state_switch k tick (pins rd')) = KEY_EVENT_LONG_PRESSED_ALWS"
    using pin held_state_switch by (auto simp: held_def)
  have weaken: "\<And>k. held rd f k \<and> event k = KEY_EVENT_LONG_PRESSED_ALWS \<Longrightarrow> held rd f k"
    by blast
  have h2: "held rd f (ks2 a) \<and> event (ks2 a) = KEY_EVENT_LONG_PRESSED_ALWS"
    by (rule update_keys_establish
        [of "held rd f" "\<lambda>k. held rd f k \<and> event k = KEY_EVENT_LONG_PRESSED_ALWS",
          OF step weaken u h1 a_in])
  have k3: "keys s3 a = ks2 a"
    using combo_loop_keys [OF c, of a] nm by simp
  note f3 = combo_loop_frame [OF c]
  have l2: "log_inv (only_from ?A) s0 (s\<lparr>keys := ks2\<rparr>)"
    using log by (auto intro: log_inv_same)
  have "\<forall>t c f u. only_from ?A (Comb_call t c f u)" by simp
  from combo_loop_log [OF this c l2]
  have l3: "log_inv (only_from ?A) s0 s3" .
  from h2 k3 have hd3: "held rd f (keys s3 a)"
    and ev3: "event (keys s3 a) = KEY_EVENT_LONG_PRESSED_ALWS" by simp_all
  from dispatch_keys_held [OF hd3 ev3 l3, of tick ps True] d lst
  have l1: "log_inv (only_from ?A) s0 s1" and k1: "keys s1 a = keys s3 a" by simp_all
  from dispatch_keys_frame [of tick "nn_key_list s" True s3] d f3
  have f1: "nn_key_list s1 = nn_key_list s" "nn_combo_list s1 = nn_combo_list s"
    "\<forall>cp. combo_member (combs s1 cp) = combo_member (combs s cp)"
    by simp_all
  from f1 nm have "\<forall>cp \<in> set (nn_combo_list s1). Some a \<notin> set (combo_member (combs s1 cp))"
    by simp
  with f1(1) lst k1 hd3 l1 show ?thesis by simp
qed

lemma run_held:
  "run sched s = Some s' \<Longrightarrow> nn_key_list s = xs @ a # ps \<Longrightarrow>
   \<forall>cp \<in> set (nn_combo_list s). Some a \<notin> set (combo_member (combs s cp)) \<Longrightarrow>
   held rd f (keys s a) \<Longrightarrow> \<forall>(tick, pins) \<in> set sched. pins rd \<Longrightarrow>
   log_inv (only_from (set (xs @ [a]))) s0 s \<Longrightarrow>
   log_inv (only_from (set (xs @ [a]))) s0 s'"
proof (induction sched arbitrary: s)
  case Nil
  then show ?case by simp
next
  case (Cons e sched)
  obtain tick pins where e: "e = (tick, pins)" by (cases e)
  from Cons.prems(1) obtain r s1 where h: "NN_Key_Handler pins tick s = Some (r, s1)"
    and rest: "run sched s1 = Some s'"
    by (auto simp: e split: option.splits)
  from Cons.prems(5) have pin: "pins rd" and pins: "\<forall>(tick, pins) \<in> set sched. pins rd"
    by (simp_all add: e)
  from handler_held [OF h Cons.prems(2,3,4) pin Cons.prems(6)]
  have "nn_key_list s1 = xs @ a # ps"
    "\<forall>cp \<in> set (nn_combo_list s1). Some a \<notin> set (combo_member (combs s1 cp))"
    "held rd f (keys s1 a)" "log_inv (only_from (set (xs @ [a]))) s0 s1"
    by simp_all
  from Cons.IH [OF rest this(1,2,3) pins this(4)] show ?case .
qed

text \<open>
  Claim C10. \<open>LastTick\<close> is one variable of the module, so the spacing holds for the
  system as a whole: over every run of the handler, successive continuous long-press
  invocations, of whatever keys, are at least \<open>KEY_LONG_PRESS_ALWS_CB\<close> = 50 ticks apart.
  And the key visited first takes every slot: let \<open>a\<close> be a registered key that belongs to
  no registered combo, is held in the continuous state with its callback registered, and
  whose button is read as pressed at every call of the run. Then every continuous
  invocation of the run is for \<open>a\<close> or for a key registered before \<open>a\<close>; a key that comes
  after \<open>a\<close> in the registration order never gets its continuous callback, however long
  the run lasts.
\<close>

theorem shared_limiter_starves_later_keys:
  assumes "run sched s = Some s'"
  shows "spaced (new_calls s s') \<and>
         (nn_key_list s = xs @ a # ps \<and>
          (\<forall>cp \<in> set (nn_combo_list s). Some a \<notin> set (combo_member (combs s cp))) \<and>
          held rd f (keys s a) \<and> (\<forall>(tick, pins) \<in> set sched. pins rd)
          \<longrightarrow> (\<forall>c \<in> set (new_calls s s'). only_from (set (xs @ [a])) c))"
proof -
  from run_limiter [OF assms limiter_ok_refl] have "spaced (new_calls s s')"
    by (simp add: limiter_ok_def)
  moreover have "\<forall>c \<in> set (new_calls s s'). only_from (set (xs @ [a])) c"
    if "nn_key_list s = xs @ a # ps"
      "\<forall>cp \<in> set (nn_combo_list s). Some a \<notin> set (combo_member (combs s cp))"
      "held rd f (keys s a)" "\<forall>(tick, pins) \<in> set sched. pins rd"
    using run_held [OF assms that log_inv_refl] by (simp add: log_inv_def)
  ultimately show ?thesis by blast
qed


theorem shared_limiter_starves_later_keys_witness:
  "map_option (new_calls both_held) (run held_sched both_held) =
     Some [Key_call 100 1 KEY_EVENT_LONG_PRESSED_ALWS 13 None,
           Key_call 150 1 KEY_EVENT_LONG_PRESSED_ALWS 13 None,
           Key_call 200 1 KEY_EVENT_LONG_PRESSED_ALWS 13 None] \<and>
   map_option (spaced \<circ> new_calls both_held) (run held_sched both_held) = Some True \<and>
   map_option (list_all (only_from {1}) \<circ> new_calls both_held) (run held_sched both_held)
     = Some True \<and>
   nn_key_list both_held = [1, 2] \<and> held 1 13 (keys both_held 1) \<and> held 2 14 (keys both_held 2)"
proof -
  have log: "map_option (new_calls both_held) (run held_sched both_held) =
     Some [Key_call 100 1 KEY_EVENT_LONG_PRESSED_ALWS 13 None,
           Key_call 150 1 KEY_EVENT_LONG_PRESSED_ALWS 13 None,
           Key_call 200 1 KEY_EVENT_LONG_PRESSED_ALWS 13 None]"
    by (simp add: held_sched_def all_down_def held_defs model_defs new_calls_def word_le_nat_alt)
  then obtain s' where r: "run held_sched both_held = Some s'" by blast
  have lst: "nn_key_list both_held = [] @ 1 # [2]" by (simp add: held_defs)
  have nm: "\<forall>cp \<in> set (nn_combo_list both_held).
              Some 1 \<notin> set (combo_member (combs both_held cp))"
    by (simp add: held_defs)
  have h: "held 1 13 (keys both_held 1)" "held 2 14 (keys both_held 2)"
    by (simp_all add: held_def held_defs)
  have pins: "\<forall>(tick, pins) \<in> set held_sched. pins 1"
    by (simp add: held_sched_def all_down_def)
  from shared_limiter_starves_later_keys [OF r, of "[]" 1 "[2]" 1 13] lst nm h(1) pins
  have "spaced (new_calls both_held s')"
    "\<forall>c \<in> set (new_calls both_held s'). only_from {1} c"
    by simp_all
  with r log lst h show ?thesis by (simp add: list_all_iff)
qed

section \<open>The combo invariants\<close>

lemma expected_mask_Suc: "expected_mask (Suc n) = expected_mask n OR push_bit n 1"
  by (simp add: expected_mask_def)

lemma bit_expected_mask: "bit (expected_mask n) i \<longleftrightarrow> i < n \<and> i < 4"
proof (induction n)
  case 0
  then show ?case by (simp add: expected_mask_def)
next
  case (Suc n)
  then show ?case
    by (auto simp: expected_mask_Suc bit_or_iff bit_push_bit_iff bit_1_iff bit_exp_iff
        possible_bit_word less_Suc_eq)
qed

lemma member_bit:
  assumes "k < n" "n \<le> 4"
  shows "(push_bit k 1 :: 4 word) AND expected_mask n = push_bit k 1"
    and "(push_bit k 1 :: 4 word) \<noteq> 0"
proof -
  show "(push_bit k 1 :: 4 word) AND expected_mask n = push_bit k 1"
    using assms
    by (intro bit_word_eqI)
      (auto simp: bit_and_iff bit_push_bit_iff bit_1_iff bit_exp_iff possible_bit_word
        bit_expected_mask)
  have "bit (push_bit k 1 :: 4 word) k"
    using assms by (simp add: bit_push_bit_iff bit_exp_iff possible_bit_word)
  then show "(push_bit k 1 :: 4 word) \<noteq> 0" by (metis bit_0_eq bot_apply bot_bool_def)
qed

lemma mask_subset_or:
  "a AND m = a \<Longrightarrow> b AND m = b \<Longrightarrow> (a OR b) AND m = (a OR b)" for a b m :: "4 word"
  by (metis bit.conj_disj_distrib2)

lemma combo_scan_inv:
  assumes "combo_value_excepted c = expected_mask n" "n \<le> 4" "k + length ms \<le> n"
    and "combo_scan ks tick ms k (c, a) = (c', a')"
  shows "(mask_subset c \<longrightarrow> mask_subset c') \<and>
         (tick \<noteq> 0 \<and> window_inv c \<longrightarrow> window_inv c')"
  using assms
proof (induction ms arbitrary: k c a)
  case Nil
  then show ?case by simp
next
  case (Cons m ms)
  from Cons.prems(3) have k: "k < n" and rest: "Suc k + length ms \<le> n" by simp_all
  note bit = member_bit [OF k Cons.prems(2)]
  show ?case
  proof (cases "event (ks m) = KEY_EVENT_PRESSED")
    case False
    with Cons.prems(4) have "combo_scan ks tick ms (Suc k) (c, a) = (c', a')" by simp
    from Cons.IH [OF Cons.prems(1,2) rest this] show ?thesis .
  next
    case True
    define c1 where "c1 =
      (if combo_mem_first c = 0
       then c\<lparr>combo_mem_first := tick, combo_value_now := push_bit k 1\<rparr>
       else if tick - combo_mem_first c \<le> ucast (combo_window c)
       then c\<lparr>combo_value_now := combo_value_now c OR push_bit k 1\<rparr>
       else c)"
    define a1 where "a1 = (if combo_mem_first c = 0 then True else a)"
    define c2 where "c2 =
      (if combo_value_now c1 = combo_value_excepted c1
       then c1\<lparr>combo_trigger := True, combo_value_now := 0, combo_mem_first := 0\<rparr>
       else c1)"
    have "combo_scan ks tick (m # ms) k (c, a) = combo_scan ks tick ms (Suc k) (c2, a1)"
      using True by (simp add: c1_def a1_def c2_def Let_def)
    with Cons.prems(4) have step: "combo_scan ks tick ms (Suc k) (c2, a1) = (c', a')"
      by simp
    have e2: "combo_value_excepted c2 = expected_mask n"
      using Cons.prems(1) by (simp add: c2_def c1_def)
    have s1: "mask_subset c \<longrightarrow> mask_subset c1"
      using bit(1) Cons.prems(1) by (auto simp: c1_def mask_subset_def intro: mask_subset_or)
    have s2: "mask_subset c1 \<longrightarrow> mask_subset c2"
      by (simp add: c2_def mask_subset_def)
    have w1: "tick \<noteq> 0 \<and> window_inv c \<longrightarrow> window_inv c1"
      using bit(2) by (auto simp: c1_def window_inv_def or_eq_0_iff)
    have w2: "window_inv c1 \<longrightarrow> window_inv c2"
      by (simp add: c2_def window_inv_def)
    from Cons.IH [OF e2 Cons.prems(2) rest step] s1 s2 w1 w2 show ?thesis by blast
  qed
qed


lemma member_ptrs_length:
  assumes "member_ptrs c = Some ms"
  shows "length ms = unat (combo_member_nbr c)"
proof -
  from assms have n: "unat (combo_member_nbr c) \<le> length (combo_member c)"
    and "take (unat (combo_member_nbr c)) (combo_member c) = map Some ms"
    by (auto simp: member_ptrs_def Let_def dest: those_map_Some split: if_splits)
  then have "length (take (unat (combo_member_nbr c)) (combo_member c)) = length ms" by simp
  with n show ?thesis by simp
qed

lemma combo_body_inv:
  assumes b: "combo_body tick cp s = Some s1" and wf: "combo_wf (combs s cp)"
  shows "(mask_subset (combs s cp) \<longrightarrow> mask_subset (combs s1 cp)) \<and>
         (tick \<noteq> 0 \<and> window_inv (combs s cp) \<longrightarrow> window_inv (combs s1 cp))"
proof -
  from b obtain ms where ms: "member_ptrs (combs s cp) = Some ms"
    by (auto simp: combo_body_def Let_def split: option.splits)
  obtain c1 act where sc:
    "combo_scan (keys s) tick ms 0 (combs s cp, combo_mem_first (combs s cp) > 0) = (c1, act)"
    by (cases "combo_scan (keys s) tick ms 0 (combs s cp, combo_mem_first (combs s cp) > 0)")
  define c2 where "c2 = (if combo_trigger c1 then c1\<lparr>combo_trigger := False\<rparr> else c1)"
  define c3 where "c3 =
     (if combo_mem_first c2 \<noteq> 0 \<and> tick - combo_mem_first c2 > ucast (combo_window c2)
      then c2\<lparr>combo_mem_first := 0, combo_value_now := 0\<rparr> else c2)"
  have s1: "combs s1 cp = c3"
    using b ms sc by (auto simp: combo_body_def Let_def c2_def c3_def split: if_splits)
  from wf have e: "combo_value_excepted (combs s cp) = expected_mask (unat (combo_member_nbr (combs s cp)))"
    and n: "unat (combo_member_nbr (combs s cp)) \<le> 4"
    by (simp_all add: combo_wf_def KEY_MAX_COMBO_MEMBER_def)
  have len: "0 + length ms \<le> unat (combo_member_nbr (combs s cp))"
    by (simp add: member_ptrs_length [OF ms])
  note scan = combo_scan_inv [OF e n len sc]
  have "mask_subset c1 \<longrightarrow> mask_subset c3" "window_inv c1 \<longrightarrow> window_inv c3"
    by (simp_all add: c3_def c2_def mask_subset_def window_inv_def)
  with scan show ?thesis by (simp add: s1)
qed

text \<open>The invariants of the combo at \<open>cq\<close> across the processing of the combo at \<open>cp\<close>.\<close>

lemma combo_body_keeps:
  assumes b: "combo_body tick cp s = Some s1" and wf: "combo_wf (combs s cq)"
  shows "combo_wf (combs s1 cq) \<and>
         (mask_subset (combs s cq) \<longrightarrow> mask_subset (combs s1 cq)) \<and>
         (tick \<noteq> 0 \<and> window_inv (combs s cq) \<longrightarrow> window_inv (combs s1 cq))"
proof (cases "cq = cp")
  case True
  have "combo_wf (combs s1 cp)"
    using wf True by (simp add: combo_wf_def combo_body_frame [OF b])
  with combo_body_inv [OF b] wf True show ?thesis by simp
next
  case False
  with combo_body_effect [OF b] have "combs s1 cq = combs s cq" by blast
  with wf show ?thesis by simp
qed

lemma combo_loop_keeps:
  "combo_loop tick cps s = Some s' \<Longrightarrow> combo_wf (combs s cq) \<Longrightarrow>
   combo_wf (combs s' cq) \<and>
   (mask_subset (combs s cq) \<longrightarrow> mask_subset (combs s' cq)) \<and>
   (tick \<noteq> 0 \<and> window_inv (combs s cq) \<longrightarrow> window_inv (combs s' cq))"
proof (induction cps arbitrary: s)
  case Nil
  then show ?case by simp
next
  case (Cons cp cps)
  from Cons.prems(1) obtain s1 where b: "combo_body tick cp s = Some s1"
    and l: "combo_loop tick cps s1 = Some s'"
    by (auto split: option.splits)
  note one = combo_body_keeps [OF b Cons.prems(2)]
  then have "combo_wf (combs s1 cq)" by simp
  from Cons.IH [OF l this] one show ?case by blast
qed

lemma handler_keeps:
  assumes h: "NN_Key_Handler pins tick s = Some (r, s')" and wf: "combo_wf (combs s cq)"
  shows "combo_wf (combs s' cq) \<and>
         (mask_subset (combs s cq) \<longrightarrow> mask_subset (combs s' cq)) \<and>
         (tick \<noteq> 0 \<and> window_inv (combs s cq) \<longrightarrow> window_inv (combs s' cq))"
proof -
  from handler_phases [OF h] obtain ks2 s3 where
    c: "combo_loop tick (nn_combo_list s) (s\<lparr>keys := ks2\<rparr>) = Some s3"
    and d: "dispatch_keys tick (nn_key_list s) (True, s3) = (r, s')"
    by blast
  from dispatch_keys_frame [of tick "nn_key_list s" True s3] d have "combs s' = combs s3" by simp
  with combo_loop_keeps [OF c, of cq] wf show ?thesis by simp
qed

lemma run_keeps:
  "run sched s = Some s' \<Longrightarrow> combo_wf (combs s cq) \<Longrightarrow>
   combo_wf (combs s' cq) \<and>
   (mask_subset (combs s cq) \<longrightarrow> mask_subset (combs s' cq)) \<and>
   ((\<forall>(tick, pins) \<in> set sched. tick \<noteq> 0) \<and> window_inv (combs s cq)
      \<longrightarrow> window_inv (combs s' cq))"
proof (induction sched arbitrary: s)
  case Nil
  then show ?case by simp
next
  case (Cons e sched)
  obtain tick pins where e: "e = (tick, pins)" by (cases e)
  from Cons.prems(1) obtain r s1 where h: "NN_Key_Handler pins tick s = Some (r, s1)"
    and rest: "run sched s1 = Some s'"
    by (auto simp: e split: option.splits)
  note one = handler_keeps [OF h Cons.prems(2)]
  then have "combo_wf (combs s1 cq)" by simp
  from Cons.IH [OF rest this] one show ?case by (auto simp: e)
qed

text \<open>
  What holds of the fields of a combo over every run. \<open>NN_Combo_Add\<close> leaves the new
  combo well formed, with an empty accumulated mask and a zero window start. Over every
  run of the handler a well-formed combo stays well formed and its accumulated mask stays
  a subset of its expected mask. If no handler call of the run is made with tick value 0,
  the window start is zero exactly when the accumulated mask is zero.
\<close>

lemma combo_mask_stays_in_expected:
  "(NN_Combo_Add (Some cp) ident mem_nbr m1 m2 rest s = Some (True, s1) \<longrightarrow>
      combo_wf (combs s1 cp) \<and> mask_subset (combs s1 cp) \<and> window_inv (combs s1 cp)) \<and>
   (run sched s = Some s' \<and> combo_wf (combs s cp) \<longrightarrow>
      combo_wf (combs s' cp) \<and>
      (mask_subset (combs s cp) \<longrightarrow> mask_subset (combs s' cp)) \<and>
      ((\<forall>(tick, pins) \<in> set sched. tick \<noteq> 0) \<and> window_inv (combs s cp)
         \<longrightarrow> window_inv (combs s' cp)))"
proof -
  have "combo_wf (combs s1 cp) \<and> mask_subset (combs s1 cp) \<and> window_inv (combs s1 cp)"
    if "NN_Combo_Add (Some cp) ident mem_nbr m1 m2 rest s = Some (True, s1)"
    using that
    by (auto simp: NN_Combo_Add_def Let_def combo_wf_def mask_subset_def window_inv_def
        split: if_splits option.splits prod.splits)
  with run_keeps [of sched s s' cp] show ?thesis by blast
qed

text \<open>
  A first press at tick value 0. The run below crosses the wrap-around of the tick; the
  press event of key A is raised by the handler call at tick 0. That call folds A into
  the accumulated mask (mask 1) and locks the members, but the window start it records is
  the tick itself, 0, which is also the value that means that no window is open. The
  window is opened anew by the next call.
\<close>

lemma press_at_tick_zero_leaves_window_start_zero:
  "timeline_from wrap_sched combo_AB = Some
     [(4294966896, [], (KEY_EVENT_INIT, False), (KEY_EVENT_INIT, False), 0, 0),
      (4294966946, [], (KEY_EVENT_INIT, False), (KEY_EVENT_INIT, False), 0, 0),
      (4294966996, [], (KEY_EVENT_INIT, False), (KEY_EVENT_INIT, False), 0, 0),
      (0, [], (KEY_EVENT_PRESSED, True), (KEY_EVENT_INIT, True), 0, 1),
      (50, [], (KEY_EVENT_PRESSED, True), (KEY_EVENT_INIT, True), 50, 1)]"
  by (simp add: model_defs boot_def zero_key_def zero_comb_def two_keys_def combo_AB_def
      timeline_from_def wrap_sched_def row_of_def new_calls_def eval_simps)

text \<open>
  Claim C8: the first half holds (lemma \<open>combo_mask_stays_in_expected\<close>), the second
  fails in the code, in both directions. First run (\<open>pins_mirror\<close>, no call at tick 0):
  the press event of B opens the window at tick 400, and the press event of A completes
  the mask at tick 650, at member index 0. The scan resets mask and window start and then
  reaches member index 1, whose press event is still pending, and opens the window again.
  The call invokes the combo callback and clears both events, and from tick 650 to tick
  950 the window start is 650 and the mask is 2, although the window has matched and no
  press has been observed since. Second run (\<open>zero_sched\<close>): both press events are raised
  by the call at tick 0. The scan records 0 as the window start for A, takes B for the
  first member again because the window start is 0, and overwrites the mask with the bit
  of B. After the call both presses are pending and the members are locked, but the
  window start is 0 and the bit of A is gone; the combo triggers one call later.
\<close>

theorem window_start_disagrees_with_presses:
  "timeline_of pins_mirror combo_AB = Some
    [(0, [], (KEY_EVENT_INIT, False), (KEY_EVENT_INIT, False), 0, 0),
     (50, [], (KEY_EVENT_INIT, False), (KEY_EVENT_INIT, False), 0, 0),
     (100, [], (KEY_EVENT_INIT, False), (KEY_EVENT_INIT, False), 0, 0),
     (150, [], (KEY_EVENT_INIT, False), (KEY_EVENT_INIT, False), 0, 0),
     (200, [], (KEY_EVENT_INIT, False), (KEY_EVENT_INIT, False), 0, 0),
     (250, [], (KEY_EVENT_INIT, False), (KEY_EVENT_INIT, False), 0, 0),
     (300, [], (KEY_EVENT_INIT, False), (KEY_EVENT_INIT, False), 0, 0),
     (350, [], (KEY_EVENT_INIT, False), (KEY_EVENT_INIT, False), 0, 0),
     (400, [], (KEY_EVENT_INIT, True), (KEY_EVENT_PRESSED, True), 400, 2),
     (450, [], (KEY_EVENT_INIT, True), (KEY_EVENT_PRESSED, True), 400, 2),
     (500, [], (KEY_EVENT_INIT, True), (KEY_EVENT_PRESSED, True), 400, 2),
     (550, [], (KEY_EVENT_INIT, True), (KEY_EVENT_PRESSED, True), 400, 2),
     (600, [], (KEY_EVENT_INIT, True), (KEY_EVENT_PRESSED, True), 400, 2),
     (650, [Comb_call 650 1 21 None], (KEY_EVENT_INIT, False), (KEY_EVENT_INIT, False), 650, 2),
     (700, [], (KEY_EVENT_INIT, True), (KEY_EVENT_INIT, True), 650, 2),
     (750, [], (KEY_EVENT_INIT, True), (KEY_EVENT_INIT, True), 650, 2),
     (800, [], (KEY_EVENT_INIT, True), (KEY_EVENT_INIT, True), 650, 2),
     (850, [], (KEY_EVENT_INIT, True), (KEY_EVENT_INIT, True), 650, 2),
     (900, [], (KEY_EVENT_INIT, True), (KEY_EVENT_INIT, True), 650, 2),
     (950, [], (KEY_EVENT_INIT, True), (KEY_EVENT_INIT, True), 650, 2),
     (1000, [], (KEY_EVENT_INIT, False), (KEY_EVENT_INIT, False), 0, 0),
     (1050, [], (KEY_EVENT_INIT, False), (KEY_EVENT_INIT, False), 0, 0),
     (1100, [], (KEY_EVENT_INIT, False), (KEY_EVENT_INIT, False), 0, 0),
     (1150, [], (KEY_EVENT_INIT, False), (KEY_EVENT_INIT, False), 0, 0),
     (1200, [], (KEY_EVENT_INIT, False), (KEY_EVENT_INIT, False), 0, 0)] \<and>
   timeline_from zero_sched combo_AB = Some
    [(4294966896, [], (KEY_EVENT_INIT, False), (KEY_EVENT_INIT, False), 0, 0),
     (4294966946, [], (KEY_EVENT_INIT, False), (KEY_EVENT_INIT, False), 0, 0),
     (4294966996, [], (KEY_EVENT_INIT, False), (KEY_EVENT_INIT, False), 0, 0),
     (0, [], (KEY_EVENT_PRESSED, True), (KEY_EVENT_PRESSED, True), 0, 2),
     (50, [Comb_call 50 1 21 None], (KEY_EVENT_INIT, False), (KEY_EVENT_INIT, False), 0, 0),
     (100, [], (KEY_EVENT_INIT, False), (KEY_EVENT_INIT, False), 0, 0)]"
  by (simp add: model_defs scenario_defs pins_mirror_def zero_sched_def timeline_from_def
      eval_simps)

section \<open>A repeated handler call\<close>

lemma ucast_threshold_eq_0: "(ucast (x :: 16 word) :: 32 word) = 0 \<longleftrightarrow> x = 0"
proof -
  have "uint (ucast x :: 32 word) = uint x"
    by (rule uint_up_ucast) (simp add: is_up)
  then show ?thesis by (metis uint_0_iff)
qed

lemma ucast_threshold_le_0: "(ucast (x :: 16 word) :: 32 word) \<le> 0 \<longleftrightarrow> x = 0"
  by (simp add: ucast_threshold_eq_0)







section \<open>The dispatch loop and the pending events\<close>

lemma NN_Key_Event_core:
  "keys (snd (NN_Key_Event (Some p) tick s)) q =
     (keys s q)\<lparr>event := event (keys (snd (NN_Key_Event (Some p) tick s)) q)\<rparr> \<and>
   (event (keys (snd (NN_Key_Event (Some p) tick s)) q) = event (keys s q) \<or>
    event (keys (snd (NN_Key_Event (Some p) tick s)) q) = KEY_EVENT_INIT)"
  using NN_Key_Event_keys [of p tick s] by auto


lemma dispatch_keys_core:
  "keys (snd (dispatch_keys tick ps (r, s))) q =
     (keys s q)\<lparr>event := event (keys (snd (dispatch_keys tick ps (r, s))) q)\<rparr> \<and>
   (event (keys (snd (dispatch_keys tick ps (r, s))) q) = event (keys s q) \<or>
    event (keys (snd (dispatch_keys tick ps (r, s))) q) = KEY_EVENT_INIT)"
proof (induction ps arbitrary: r s)
  case Nil
  then show ?case by simp
next
  case (Cons p ps)
  show ?case
  proof (cases "lock_flag (keys s p)")
    case True
    then show ?thesis using Cons.IH [of r s] by simp
  next
    case False
    obtain r1 s1 where e: "NN_Key_Event (Some p) tick s = (r1, s1)"
      by (cases "NN_Key_Event (Some p) tick s")
    from NN_Key_Event_core [of p tick s q] e
    have one: "keys s1 q = (keys s q)\<lparr>event := event (keys s1 q)\<rparr>"
      "event (keys s1 q) = event (keys s q) \<or> event (keys s1 q) = KEY_EVENT_INIT"
      by simp_all
    let ?s' = "snd (dispatch_keys tick ps (r \<and> r1, s1))"
    from Cons.IH [of "r \<and> r1" s1]
    have ih: "keys ?s' q = (keys s1 q)\<lparr>event := event (keys ?s' q)\<rparr>"
      "event (keys ?s' q) = event (keys s1 q) \<or> event (keys ?s' q) = KEY_EVENT_INIT"
      by simp_all
    have "keys ?s' q = (keys s q)\<lparr>event := event (keys ?s' q)\<rparr>"
      by (subst ih(1), subst one(1)) simp
    moreover have "event (keys ?s' q) = event (keys s q) \<or> event (keys ?s' q) = KEY_EVENT_INIT"
      using ih(2) one(2) by auto
    ultimately show ?thesis using False e by simp
  qed
qed

lemma dispatch_keys_lock:
  "lock_flag (keys (snd (dispatch_keys tick ps (r, s))) q) = lock_flag (keys s q)"
  by (subst conjunct1 [OF dispatch_keys_core]) simp


lemma same_core_refl: "same_core k k"
  by (simp add: same_core_def)




lemma same_core_update:
  "same_core k (k\<lparr>event := e\<rparr>)" "same_core k (k\<lparr>lock_flag := l\<rparr>)"
  "same_core k (k\<lparr>event := e, lock_flag := l\<rparr>)"
  by (simp_all add: same_core_def)

lemma reset_locks_same_core: "same_core (ks q) (reset_locks ps ks q)"
  by (simp add: reset_locks_apply same_core_update same_core_refl)



section \<open>A held key across handler calls\<close>









section \<open>The member scan, step by step\<close>


lemma combo_scan_Cons:
  "combo_scan ks tick (m # ms) k x = combo_scan ks tick ms (Suc k) (scan_at ks tick m k x)"
  by (cases x) (simp add: scan_at_def Let_def split: prod.splits)

lemma scan_at_skip: "\<not> pressed ks m \<Longrightarrow> scan_at ks tick m k x = x"
  by (cases x) (simp add: scan_at_def pressed_def)

lemma scan_at_cong: "pressed ks m = pressed ks' m \<Longrightarrow> scan_at ks tick m k x = scan_at ks' tick m k x"
  by (cases x) (simp add: scan_at_def pressed_def)

lemma scan_at_trigger: "combo_trigger c \<Longrightarrow> combo_trigger (fst (scan_at ks tick m k (c, a)))"
  by (simp add: scan_at_def Let_def)


lemma scan_at_open:
  assumes "pressed ks m" "combo_mem_first c \<noteq> 0" "tick - combo_mem_first c \<le> ucast (combo_window c)"
    and "scan_at ks tick m k (c, a) = (c', a')"
  shows "combo_value_now c OR push_bit k 1 = combo_value_excepted c \<Longrightarrow> combo_trigger c'"
    and "\<not> combo_trigger c' \<Longrightarrow>
         c' = c\<lparr>combo_value_now := combo_value_now c OR push_bit k 1\<rparr> \<and> a' = a \<and>
         combo_value_now c' \<noteq> combo_value_excepted c"
  using assms by (auto simp: scan_at_def pressed_def Let_def split: if_splits)




lemma scan_cong:
  "\<forall>m \<in> set ms. pressed ks m = pressed ks' m \<Longrightarrow>
   combo_scan ks tick ms k x = combo_scan ks' tick ms k x"
proof (induction ms arbitrary: k x)
  case Nil
  then show ?case by (cases x) simp
next
  case (Cons m ms)
  from Cons.prems have m: "pressed ks m = pressed ks' m"
    and rest: "\<forall>m \<in> set ms. pressed ks m = pressed ks' m" by simp_all
  show ?case
    by (simp only: combo_scan_Cons scan_at_cong [OF m] Cons.IH [OF rest])
qed

lemma scan_trigger_sticky:
  "combo_trigger c \<Longrightarrow> combo_trigger (fst (combo_scan ks tick ms k (c, a)))"
proof (induction ms arbitrary: k c a)
  case Nil
  then show ?case by simp
next
  case (Cons m ms)
  obtain c' a' where s: "scan_at ks tick m k (c, a) = (c', a')" by fastforce
  with scan_at_trigger [OF Cons.prems, of ks tick m k a] have "combo_trigger c'" by simp
  from Cons.IH [OF this] show ?case by (simp only: combo_scan_Cons s)
qed








text \<open>A scan that completes the mask sets the trigger.\<close>

lemma scan_triggers:
  "combo_mem_first c \<noteq> 0 \<Longrightarrow> tick - combo_mem_first c \<le> ucast (combo_window c) \<Longrightarrow>
   combo_value_now c \<noteq> combo_value_excepted c \<Longrightarrow>
   combo_value_now c OR pressed_bits ks ms k = combo_value_excepted c \<Longrightarrow>
   combo_trigger (fst (combo_scan ks tick ms k (c, a)))"
proof (induction ms arbitrary: k c a)
  case Nil
  then show ?case by simp
next
  case (Cons m ms)
  obtain c' a' where s: "scan_at ks tick m k (c, a) = (c', a')" by fastforce
  show ?case
  proof (cases "pressed ks m")
    case False
    with s have e: "c' = c" "a' = a" by (simp_all add: scan_at_skip)
    from Cons.prems(4) False
    have "combo_value_now c OR pressed_bits ks ms (Suc k) = combo_value_excepted c" by simp
    from Cons.IH [OF Cons.prems(1,2,3) this] show ?thesis
      by (simp only: combo_scan_Cons s e)
  next
    case True
    show ?thesis
    proof (cases "combo_trigger c'")
      case t: True
      from scan_trigger_sticky [OF t] show ?thesis by (simp only: combo_scan_Cons s)
    next
      case f: False
      from scan_at_open(2) [OF True Cons.prems(1,2) s f]
      have c': "c' = c\<lparr>combo_value_now := combo_value_now c OR push_bit k 1\<rparr>"
        and ne: "combo_value_now c' \<noteq> combo_value_excepted c" by blast+
      have g: "combo_mem_first c' \<noteq> 0" "tick - combo_mem_first c' \<le> ucast (combo_window c')"
        "combo_value_now c' \<noteq> combo_value_excepted c'"
        using Cons.prems(1,2) ne by (simp_all add: c')
      from Cons.prems(4) True
      have "combo_value_now c' OR pressed_bits ks ms (Suc k) = combo_value_excepted c'"
        by (simp add: c' ac_simps)
      from Cons.IH [OF g this] show ?thesis by (simp only: combo_scan_Cons s)
    qed
  qed
qed


section \<open>One combo in one call, case by case\<close>

lemma combo_body_trigger:
  assumes b: "combo_body tick cp s = Some s1"
    and ms: "member_ptrs (combs s cp) = Some ms"
    and sc: "combo_scan (keys s) tick ms 0 (combs s cp, combo_mem_first (combs s cp) > 0) = (c1, a1)"
    and t: "combo_trigger c1"
  shows "keys s1 q = (if q \<in> set ms then (keys s q)\<lparr>event := KEY_EVENT_INIT, lock_flag := False\<rparr>
                      else keys s q)"
    and "calls s1 = (case func (combo_cb (combs s cp)) of
                       None \<Rightarrow> calls s
                     | Some f \<Rightarrow> calls s @ [Comb_call tick cp f (user_data (combo_cb (combs s cp)))])"
    and "\<not> combo_trigger (combs s1 cp)" and "\<not> expired tick (combs s1 cp)"
proof -
  from combo_scan_fields [OF sc] have cb: "combo_cb c1 = combo_cb (combs s cp)" by simp
  from b ms sc t
  have s1: "s1 = s\<lparr>combs := (combs s)(cp :=
        (if expired tick c1
         then c1\<lparr>combo_trigger := False, combo_mem_first := 0, combo_value_now := 0\<rparr>
         else c1\<lparr>combo_trigger := False\<rparr>)),
      keys := (if expired tick c1
               then set_locks False ms
                      (reset_members ms (if a1 then set_locks True ms (keys s) else keys s))
               else reset_members ms (if a1 then set_locks True ms (keys s) else keys s)),
      calls := (case func (combo_cb c1) of
                  None \<Rightarrow> calls s
                | Some f \<Rightarrow> calls s @ [Comb_call tick cp f (user_data (combo_cb c1))])\<rparr>"
    by (auto simp: combo_body_def Let_def expired_def)
  show "keys s1 q = (if q \<in> set ms then (keys s q)\<lparr>event := KEY_EVENT_INIT, lock_flag := False\<rparr>
                      else keys s q)"
    by (simp add: s1 set_locks_apply reset_members_apply)
  show "calls s1 = (case func (combo_cb (combs s cp)) of
                       None \<Rightarrow> calls s
                     | Some f \<Rightarrow> calls s @ [Comb_call tick cp f (user_data (combo_cb (combs s cp)))])"
    by (simp add: s1 cb split: option.splits)
  show "\<not> combo_trigger (combs s1 cp)" by (simp add: s1)
  show "\<not> expired tick (combs s1 cp)" by (simp add: s1) (simp add: expired_def)
qed




section \<open>The combo loop, combo by combo\<close>

lemma combo_body_other:
  assumes "combo_body tick cq s = Some s1" "cq \<noteq> cp"
  shows "combs s1 cp = combs s cp"
    and "\<exists>ys. calls s1 = calls s @ ys \<and> (\<forall>c \<in> set ys. \<not> comb_call_of cp c \<and> \<not> key_call_in A c)"
proof -
  from combo_body_effect [OF assms(1)] have "\<forall>c. c \<noteq> cq \<longrightarrow> combs s1 c = combs s c" by auto
  with assms(2) show "combs s1 cp = combs s cp" by simp
  from combo_body_calls [OF assms(1)]
  show "\<exists>ys. calls s1 = calls s @ ys \<and> (\<forall>c \<in> set ys. \<not> comb_call_of cp c \<and> \<not> key_call_in A c)"
  proof
    assume "calls s1 = calls s"
    then have "calls s1 = calls s @ [] \<and> (\<forall>c \<in> set []. \<not> comb_call_of cp c \<and> \<not> key_call_in A c)"
      by simp
    then show ?thesis by blast
  next
    assume "\<exists>f u. calls s1 = calls s @ [Comb_call tick cq f u]"
    then obtain f u where "calls s1 = calls s @ [Comb_call tick cq f u]" by blast
    with assms(2) have "calls s1 = calls s @ [Comb_call tick cq f u] \<and>
      (\<forall>c \<in> set [Comb_call tick cq f u]. \<not> comb_call_of cp c \<and> \<not> key_call_in A c)" by simp
    then show ?thesis by blast
  qed
qed

lemma combo_loop_other:
  "combo_loop tick cps s = Some s' \<Longrightarrow> cp \<notin> set cps \<Longrightarrow>
   combs s' cp = combs s cp \<and>
   (\<exists>ys. calls s' = calls s @ ys \<and> (\<forall>c \<in> set ys. \<not> comb_call_of cp c \<and> \<not> key_call_in A c))"
proof (induction cps arbitrary: s)
  case Nil
  then show ?case by simp
next
  case (Cons cq cps)
  from Cons.prems(1) obtain s1 where b: "combo_body tick cq s = Some s1"
    and l: "combo_loop tick cps s1 = Some s'"
    by (auto split: option.splits)
  from Cons.prems(2) have ne: "cq \<noteq> cp" and ni: "cp \<notin> set cps" by auto
  note c1 = combo_body_other(1) [OF b ne]
  from combo_body_other(2) [OF b ne, where A = A] obtain ys where
    y1: "calls s1 = calls s @ ys"
    and p1: "\<forall>c \<in> set ys. \<not> comb_call_of cp c \<and> \<not> key_call_in A c" by blast
  from Cons.IH [OF l ni] obtain zs where
    c2: "combs s' cp = combs s1 cp" and y2: "calls s' = calls s1 @ zs"
    and p2: "\<forall>c \<in> set zs. \<not> comb_call_of cp c \<and> \<not> key_call_in A c" by blast
  from y1 y2 p1 p2 have "calls s' = calls s @ (ys @ zs) \<and>
     (\<forall>c \<in> set (ys @ zs). \<not> comb_call_of cp c \<and> \<not> key_call_in A c)" by auto
  with c1 c2 show ?case by metis
qed

text \<open>
  When no key is shared between the combo at \<open>cp\<close> and the other combos of the loop, the
  loop treats \<open>cp\<close> as if it were alone: its body runs once, on the combo and the member
  keys as they were before the loop, and what it leaves is what the loop leaves.
\<close>

lemma combo_loop_local:
  "combo_loop tick cps s = Some s' \<Longrightarrow> distinct cps \<Longrightarrow> cp \<in> set cps \<Longrightarrow>
   \<forall>cq \<in> set cps. cq \<noteq> cp \<longrightarrow>
      (\<forall>m. Some m \<in> set (combo_member (combs s cp)) \<longrightarrow> Some m \<notin> set (combo_member (combs s cq))) \<Longrightarrow>
   \<exists>sa sb xs ys. combo_body tick cp sa = Some sb \<and> combs sa cp = combs s cp \<and>
      combs s' cp = combs sb cp \<and>
      (\<forall>m. Some m \<in> set (combo_member (combs s cp)) \<longrightarrow> keys sa m = keys s m \<and> keys s' m = keys sb m) \<and>
      calls sa = calls s @ xs \<and> calls s' = calls sb @ ys \<and>
      (\<forall>c \<in> set (xs @ ys). \<not> comb_call_of cp c \<and> \<not> key_call_in A c)"
proof (induction cps arbitrary: s)
  case Nil
  then show ?case by simp
next
  case (Cons cq cps)
  from Cons.prems(1) obtain s1 where b: "combo_body tick cq s = Some s1"
    and l: "combo_loop tick cps s1 = Some s'"
    by (auto split: option.splits)
  from Cons.prems(2) have d: "distinct cps" and nq: "cq \<notin> set cps" by simp_all
  have mem1: "combo_member (combs s1 c) = combo_member (combs s c)" for c
    using combo_body_frame(4) [OF b] .
  show ?case
  proof (cases "cq = cp")
    case True
    from nq True have ni: "cp \<notin> set cps" by simp
    from combo_loop_other [OF l ni, where A = A] obtain ys where
      c2: "combs s' cp = combs s1 cp" and y2: "calls s' = calls s1 @ ys"
      and p2: "\<forall>c \<in> set ys. \<not> comb_call_of cp c \<and> \<not> key_call_in A c" by blast
    have k2: "keys s' m = keys s1 m" if m: "Some m \<in> set (combo_member (combs s cp))" for m
    proof -
      have "\<forall>cr \<in> set cps. Some m \<notin> set (combo_member (combs s1 cr))"
        using Cons.prems(4) m ni by (auto simp: mem1)
      with combo_loop_keys [OF l, of m] show ?thesis by simp
    qed
    have "combo_body tick cp s = Some s1 \<and> combs s cp = combs s cp \<and>
      combs s' cp = combs s1 cp \<and>
      (\<forall>m. Some m \<in> set (combo_member (combs s cp)) \<longrightarrow> keys s m = keys s m \<and> keys s' m = keys s1 m) \<and>
      calls s = calls s @ [] \<and> calls s' = calls s1 @ ys \<and>
      (\<forall>c \<in> set ([] @ ys). \<not> comb_call_of cp c \<and> \<not> key_call_in A c)"
      using b True c2 k2 y2 p2 by simp
    then show ?thesis by blast
  next
    case False
    with Cons.prems(3) have i: "cp \<in> set cps" by simp
    note c1 = combo_body_other(1) [OF b False]
    from combo_body_other(2) [OF b False, where A = A] obtain zs where
      y1: "calls s1 = calls s @ zs"
      and p1: "\<forall>c \<in> set zs. \<not> comb_call_of cp c \<and> \<not> key_call_in A c" by blast
    have k1: "keys s1 m = keys s m" if m: "Some m \<in> set (combo_member (combs s cp))" for m
    proof -
      from Cons.prems(4) False m have "Some m \<notin> set (combo_member (combs s cq))" by simp
      from combo_body_keys(3) [OF b this] show ?thesis .
    qed
    have sep: "\<forall>cr \<in> set cps. cr \<noteq> cp \<longrightarrow>
      (\<forall>m. Some m \<in> set (combo_member (combs s1 cp)) \<longrightarrow> Some m \<notin> set (combo_member (combs s1 cr)))"
      using Cons.prems(4) by (simp add: mem1)
    from Cons.IH [OF l d i sep] obtain sa sb xs ys where
      bb: "combo_body tick cp sa = Some sb" and ca: "combs sa cp = combs s1 cp"
      and cb: "combs s' cp = combs sb cp"
      and kk: "\<forall>m. Some m \<in> set (combo_member (combs s1 cp)) \<longrightarrow>
                 keys sa m = keys s1 m \<and> keys s' m = keys sb m"
      and xa: "calls sa = calls s1 @ xs" and ya: "calls s' = calls sb @ ys"
      and pp: "\<forall>c \<in> set (xs @ ys). \<not> comb_call_of cp c \<and> \<not> key_call_in A c" by blast
    have "combo_body tick cp sa = Some sb \<and> combs sa cp = combs s cp \<and>
      combs s' cp = combs sb cp \<and>
      (\<forall>m. Some m \<in> set (combo_member (combs s cp)) \<longrightarrow> keys sa m = keys s m \<and> keys s' m = keys sb m) \<and>
      calls sa = calls s @ (zs @ xs) \<and> calls s' = calls sb @ ys \<and>
      (\<forall>c \<in> set ((zs @ xs) @ ys). \<not> comb_call_of cp c \<and> \<not> key_call_in A c)"
      using bb ca cb kk xa ya pp c1 y1 p1 k1 by (auto simp: mem1)
    then show ?thesis by blast
  qed
qed

section \<open>The dispatch loop, by invariant\<close>

lemma dispatch_keys_rule:
  assumes base: "P s"
    and step: "\<And>p x. p \<in> set ps \<Longrightarrow> P x \<Longrightarrow> \<not> lock_flag (keys x p) \<Longrightarrow>
                 P (snd (NN_Key_Event (Some p) tick x))"
  shows "P (snd (dispatch_keys tick ps (r, s)))"
  using base step
proof (induction ps arbitrary: r s)
  case Nil
  then show ?case by simp
next
  case (Cons p ps)
  show ?case
  proof (cases "lock_flag (keys s p)")
    case True
    have "P (snd (dispatch_keys tick ps (r, s)))"
      by (rule Cons.IH [OF Cons.prems(1)]) (rule Cons.prems(2), simp_all)
    with True show ?thesis by simp
  next
    case False
    obtain r1 s1 where e: "NN_Key_Event (Some p) tick s = (r1, s1)"
      by (cases "NN_Key_Event (Some p) tick s")
    from Cons.prems(2) [of p s] Cons.prems(1) False e have p1: "P s1" by simp
    have "P (snd (dispatch_keys tick ps (r \<and> r1, s1)))"
      by (rule Cons.IH [OF p1]) (rule Cons.prems(2), simp_all)
    with False e show ?thesis by simp
  qed
qed


lemma NN_Key_Event_lock:
  "lock_flag (keys (snd (NN_Key_Event (Some p) tick s)) q) = lock_flag (keys s q)"
  using NN_Key_Event_keys [of p tick s] by (auto split: if_splits)



text \<open>
  The dispatch loop only adds key callbacks, and only for keys of its list that are not
  locked and have an event pending.
\<close>

lemma NN_Key_Event_grows_pending:
  "calls (snd (NN_Key_Event (Some p) tick s)) = calls s \<or>
   (\<exists>c. calls (snd (NN_Key_Event (Some p) tick s)) = calls s @ [c] \<and> key_call_in {p} c \<and>
        event (keys s p) \<noteq> KEY_EVENT_INIT)"
  using NN_Key_Event_calls [of p tick s] by auto

lemma dispatch_keys_grows:
  "\<exists>cs. calls (snd (dispatch_keys tick ps (r, s))) = calls s @ cs \<and>
        (\<forall>c \<in> set cs. key_call_in {p \<in> set ps. \<not> lock_flag (keys s p) \<and>
                                        event (keys s p) \<noteq> KEY_EVENT_INIT} c)"
proof -
  let ?A = "{p \<in> set ps. \<not> lock_flag (keys s p) \<and> event (keys s p) \<noteq> KEY_EVENT_INIT}"
  let ?P = "\<lambda>x. (\<forall>q. lock_flag (keys x q) = lock_flag (keys s q) \<and>
                      (event (keys x q) = event (keys s q) \<or> event (keys x q) = KEY_EVENT_INIT)) \<and>
                 (\<exists>cs. calls x = calls s @ cs \<and> (\<forall>c \<in> set cs. key_call_in ?A c))"
  have "?P (snd (dispatch_keys tick ps (r, s)))"
  proof (rule dispatch_keys_rule [where P = ?P])
    show "?P s" by simp
  next
    fix p and x :: nn_sys
    assume p: "p \<in> set ps" and x: "?P x" and u: "\<not> lock_flag (keys x p)"
    from x obtain cs where l: "\<forall>q. lock_flag (keys x q) = lock_flag (keys s q) \<and>
                      (event (keys x q) = event (keys s q) \<or> event (keys x q) = KEY_EVENT_INIT)"
      and cs: "calls x = calls s @ cs" and a: "\<forall>c \<in> set cs. key_call_in ?A c" by blast
    let ?x' = "snd (NN_Key_Event (Some p) tick x)"
    have l': "\<forall>q. lock_flag (keys ?x' q) = lock_flag (keys s q) \<and>
                      (event (keys ?x' q) = event (keys s q) \<or> event (keys ?x' q) = KEY_EVENT_INIT)"
    proof (intro allI conjI)
      fix q
      show "lock_flag (keys ?x' q) = lock_flag (keys s q)" using l by (simp add: NN_Key_Event_lock)
      from NN_Key_Event_core [of p tick x q]
      have "event (keys ?x' q) = event (keys x q) \<or> event (keys ?x' q) = KEY_EVENT_INIT" by blast
      moreover from l have "event (keys x q) = event (keys s q) \<or> event (keys x q) = KEY_EVENT_INIT"
        by blast
      ultimately show "event (keys ?x' q) = event (keys s q) \<or> event (keys ?x' q) = KEY_EVENT_INIT"
        by auto
    qed
    from NN_Key_Event_grows_pending [of p tick x]
    have "\<exists>cs'. calls ?x' = calls s @ cs' \<and> (\<forall>c \<in> set cs'. key_call_in ?A c)"
    proof
      assume "calls ?x' = calls x"
      with cs a show ?thesis by auto
    next
      assume "\<exists>c. calls ?x' = calls x @ [c] \<and> key_call_in {p} c \<and>
                  event (keys x p) \<noteq> KEY_EVENT_INIT"
      then obtain c where c: "calls ?x' = calls x @ [c]" and k: "key_call_in {p} c"
        and ne: "event (keys x p) \<noteq> KEY_EVENT_INIT" by blast
      from l have "event (keys x p) = event (keys s p) \<or> event (keys x p) = KEY_EVENT_INIT" by blast
      with ne have "event (keys s p) \<noteq> KEY_EVENT_INIT" by auto
      with p u l have pa: "p \<in> ?A" by simp
      from k pa have "key_call_in ?A c" by (cases c) simp_all
      with c cs a have "calls ?x' = calls s @ (cs @ [c]) \<and> (\<forall>c \<in> set (cs @ [c]). key_call_in ?A c)"
        by simp
      then show ?thesis by blast
    qed
    with l' show "?P ?x'" by blast
  qed
  then show ?thesis by blast
qed




lemma new_calls_trans:
  assumes "calls s1 = calls s @ xs" "calls s2 = calls s1 @ ys"
  shows "new_calls s s2 = xs @ ys" "new_calls s1 s2 = ys"
  using assms by (simp_all add: new_calls_def)

text \<open>One handler call, seen from a combo that shares no member with another one.\<close>

lemma handler_local:
  assumes h: "NN_Key_Handler pins tick s = Some (r, s1)" and al: "alone s cp"
  shows "\<exists>ks sa sb s3 xs ys.
     sampled pins tick s = Some ks \<and>
     combo_body tick cp sa = Some sb \<and> combs sa cp = combs s cp \<and> combs s1 cp = combs sb cp \<and>
     (\<forall>m. Some m \<in> set (combo_member (combs s cp)) \<longrightarrow> keys sa m = ks m \<and> keys s3 m = keys sb m) \<and>
     (\<forall>m. (\<forall>cq \<in> set (nn_combo_list s). Some m \<notin> set (combo_member (combs s cq))) \<longrightarrow> keys s3 m = ks m) \<and>
     calls sa = calls s @ xs \<and> calls s3 = calls sb @ ys \<and>
     (\<forall>c \<in> set (xs @ ys). \<not> comb_call_of cp c \<and> \<not> key_call_in A c) \<and>
     nn_key_list s3 = nn_key_list s \<and>
     dispatch_keys tick (nn_key_list s) (True, s3) = (r, s1)"
proof -
  from handler_phases [OF h] obtain ks s3 where
    u: "update_keys pins tick (nn_key_list s) (reset_locks (nn_key_list s) (keys s)) = Some ks"
    and l: "combo_loop tick (nn_combo_list s) (s\<lparr>keys := ks\<rparr>) = Some s3"
    and n: "nn_key_list s3 = nn_key_list s"
    and d: "dispatch_keys tick (nn_key_list s) (True, s3) = (r, s1)"
    by blast
  from al have i: "cp \<in> set (nn_combo_list s)" and di: "distinct (nn_combo_list s)"
    and sep: "\<forall>cq \<in> set (nn_combo_list s). cq \<noteq> cp \<longrightarrow>
         (\<forall>m. Some m \<in> set (combo_member (combs (s\<lparr>keys := ks\<rparr>) cp)) \<longrightarrow>
              Some m \<notin> set (combo_member (combs (s\<lparr>keys := ks\<rparr>) cq)))"
    by (simp_all add: alone_def)
  from combo_loop_local [OF l di i sep, where A = A] obtain sa sb xs ys where
    b: "combo_body tick cp sa = Some sb" and ca: "combs sa cp = combs s cp"
    and cb: "combs s3 cp = combs sb cp"
    and kk: "\<forall>m. Some m \<in> set (combo_member (combs s cp)) \<longrightarrow> keys sa m = ks m \<and> keys s3 m = keys sb m"
    and xa: "calls sa = calls s @ xs" and ya: "calls s3 = calls sb @ ys"
    and pp: "\<forall>c \<in> set (xs @ ys). \<not> comb_call_of cp c \<and> \<not> key_call_in A c"
    by auto
  from dispatch_keys_frame [of tick "nn_key_list s" True s3] d have "combs s1 = combs s3" by simp
  with cb have c1: "combs s1 cp = combs sb cp" by simp
  have free: "\<forall>m. (\<forall>cq \<in> set (nn_combo_list s). Some m \<notin> set (combo_member (combs s cq))) \<longrightarrow>
                  keys s3 m = ks m"
    using combo_loop_keys [OF l] by simp
  from u have "sampled pins tick s = Some ks" by (simp add: sampled_def)
  with b ca c1 kk free xa ya pp n d show ?thesis by blast
qed

lemma handler_grows:
  assumes h: "NN_Key_Handler pins tick s = Some (r, s1)"
  shows "\<exists>cs. calls s1 = calls s @ cs"
proof -
  from handler_phases [OF h] obtain ks s3 where
    l: "combo_loop tick (nn_combo_list s) (s\<lparr>keys := ks\<rparr>) = Some s3"
    and d: "dispatch_keys tick (nn_key_list s) (True, s3) = (r, s1)"
    by blast
  from combo_loop_log [OF _ l log_inv_refl, of "\<lambda>c. True"]
  have "calls s3 = calls s @ new_calls (s\<lparr>keys := ks\<rparr>) s3" by (simp add: log_inv_def)
  moreover from dispatch_keys_grows [of tick "nn_key_list s" True s3] d
  obtain cs where "calls s1 = calls s3 @ cs" by auto
  ultimately have "calls s1 = calls s @ (new_calls (s\<lparr>keys := ks\<rparr>) s3 @ cs)" by simp
  then show ?thesis ..
qed




text \<open>
  A press that is pending while the members are locked is not safe until the expiry: when
  the key is pressed again, the released branch of the state machine clears the pending
  event on its way to the pressed state, whatever the lock flag is.
\<close>

lemma new_press_wipes_pending_event:
  assumes "state k = KEY_STATE_RELEASED" "tick - key_last_time k \<ge> ucast (debounce_time k)"
  shows "state (state_switch k tick True) = KEY_STATE_PRESSED \<and>
         event (state_switch k tick True) = KEY_EVENT_INIT \<and>
         lock_flag (state_switch k tick True) = lock_flag k"
  using assms by (simp add: state_switch_def)

text \<open>
  The call in which the member scan sets the trigger, for a combo that shares no member
  with another one, whatever the state before the call: the pending events of all members
  are cleared and the members are left unlocked, the call invokes no key callback for a
  member, and it invokes the callback of the combo exactly once. The scan sets the
  trigger, in particular, when the window is open and running and the pending presses
  complete the mask (lemma \<open>scan_triggers\<close>). What the scan leaves in the window fields
  after the match is not covered by this lemma.
\<close>

lemma filter_none: "\<forall>c \<in> set xs. \<not> P c \<Longrightarrow> filter P xs = []"
  by (induction xs) simp_all

lemma completed_mask_triggers_once:
  assumes h: "NN_Key_Handler pins tick s = Some (r, s1)"
    and al: "alone s cp"
    and ms: "member_ptrs (combs s cp) = Some ms"
    and smp: "sampled pins tick s = Some ks"
    and trig: "combo_trigger (fst (combo_scan ks tick ms 0
                 (combs s cp, combo_mem_first (combs s cp) > 0)))"
  shows "\<forall>m \<in> set ms. event (keys s1 m) = KEY_EVENT_INIT \<and> \<not> lock_flag (keys s1 m)"
    and "\<forall>c \<in> set (new_calls s s1). \<not> key_call_in (set ms) c"
    and "func (combo_cb (combs s cp)) = Some f \<Longrightarrow>
         filter (comb_call_of cp) (new_calls s s1) =
           [Comb_call tick cp f (user_data (combo_cb (combs s cp)))]"
proof -
  let ?L = "nn_key_list s"
  let ?c = "combs s cp"
  from handler_local [OF h al, where A = "set ms"] obtain ks' sa sb s3 xs ys where
    smp': "sampled pins tick s = Some ks'"
    and b: "combo_body tick cp sa = Some sb" and ca: "combs sa cp = ?c"
    and kk': "\<forall>m. Some m \<in> set (combo_member ?c) \<longrightarrow> keys sa m = ks' m \<and> keys s3 m = keys sb m"
    and xa: "calls sa = calls s @ xs" and ya: "calls s3 = calls sb @ ys"
    and pp: "\<forall>c \<in> set (xs @ ys). \<not> comb_call_of cp c \<and> \<not> key_call_in (set ms) c"
    and d: "dispatch_keys tick ?L (True, s3) = (r, s1)"
    by blast
  from smp smp' have "ks' = ks" by simp
  with kk' have kk: "\<forall>m. Some m \<in> set (combo_member ?c) \<longrightarrow> keys sa m = ks m \<and> keys s3 m = keys sb m"
    by simp
  from ms ca have msa: "member_ptrs (combs sa cp) = Some ms" by simp
  have ka: "keys sa m = ks m" and kb: "keys s3 m = keys sb m" if "m \<in> set ms" for m
    using member_ptrs_subset [OF ms that] kk by simp_all
  have "\<forall>m \<in> set ms. pressed (keys sa) m = pressed ks m" using ka by (simp add: pressed_def)
  from scan_cong [OF this, of tick 0 "(?c, combo_mem_first ?c > 0)"]
  have same: "combo_scan (keys sa) tick ms 0 (combs sa cp, combo_mem_first (combs sa cp) > 0) =
              combo_scan ks tick ms 0 (?c, combo_mem_first ?c > 0)" by (simp add: ca)
  obtain c1 a1 where
    scn: "combo_scan (keys sa) tick ms 0 (combs sa cp, combo_mem_first (combs sa cp) > 0) = (c1, a1)"
    by (cases "combo_scan (keys sa) tick ms 0 (combs sa cp, combo_mem_first (combs sa cp) > 0)")
  with same have "fst (combo_scan ks tick ms 0 (?c, combo_mem_first ?c > 0)) = c1"
    by (metis fst_conv)
  with trig have t: "combo_trigger c1" by simp
  note body = combo_body_trigger [OF b msa scn t]
  have k3: "keys s3 m = (ks m)\<lparr>event := KEY_EVENT_INIT, lock_flag := False\<rparr>" if m: "m \<in> set ms" for m
    using body(1) [of m] m ka [OF m] kb [OF m] by simp
  from dispatch_keys_grows [of tick ?L True s3] d obtain cs where
    cs: "calls s1 = calls s3 @ cs"
    and kc: "\<forall>c \<in> set cs. key_call_in {p \<in> set ?L. \<not> lock_flag (keys s3 p) \<and>
                                        event (keys s3 p) \<noteq> KEY_EVENT_INIT} c"
    by auto
  have kc': "\<not> key_call_in (set ms) c \<and> \<not> comb_call_of cp c" if c: "c \<in> set cs" for c
  proof (cases c)
    case (Key_call t p ev g u)
    with kc c have "event (keys s3 p) \<noteq> KEY_EVENT_INIT" by auto
    with k3 [of p] have "p \<notin> set ms" by auto
    with Key_call show ?thesis by simp
  next
    case (Comb_call t cq g u)
    with kc c show ?thesis by auto
  qed
  show "\<forall>m \<in> set ms. event (keys s1 m) = KEY_EVENT_INIT \<and> \<not> lock_flag (keys s1 m)"
  proof
    fix m assume m: "m \<in> set ms"
    from dispatch_keys_lock [of tick ?L True s3 m] d k3 [OF m]
    have "\<not> lock_flag (keys s1 m)" by simp
    moreover from dispatch_keys_core [of tick ?L True s3 m] d k3 [OF m]
    have "event (keys s1 m) = KEY_EVENT_INIT" by auto
    ultimately show "event (keys s1 m) = KEY_EVENT_INIT \<and> \<not> lock_flag (keys s1 m)" by simp
  qed
  have cbs: "combo_cb (combs sa cp) = combo_cb ?c" by (simp add: ca)
  show "\<forall>c \<in> set (new_calls s s1). \<not> key_call_in (set ms) c"
  proof (cases "func (combo_cb ?c)")
    case None
    with body(2) xa ya have c3: "calls s3 = calls s @ (xs @ ys)" by (simp add: cbs)
    from new_calls_trans(1) [OF c3 cs] pp kc' show ?thesis by auto
  next
    case (Some g)
    with body(2) xa ya
    have c3: "calls s3 = calls s @ (xs @ [Comb_call tick cp g (user_data (combo_cb ?c))] @ ys)"
      by (simp add: cbs)
    from new_calls_trans(1) [OF c3 cs] pp kc' show ?thesis by auto
  qed
  show "filter (comb_call_of cp) (new_calls s s1) =
           [Comb_call tick cp f (user_data (combo_cb ?c))]"
    if f: "func (combo_cb ?c) = Some f"
  proof -
    from f body(2) xa ya
    have c3: "calls s3 = calls s @ (xs @ [Comb_call tick cp f (user_data (combo_cb ?c))] @ ys)"
      by (simp add: cbs)
    from pp have "filter (comb_call_of cp) xs = []" "filter (comb_call_of cp) ys = []"
      by (auto intro: filter_none)
    moreover from kc' have "filter (comb_call_of cp) cs = []" by (auto intro: filter_none)
    ultimately show ?thesis by (simp add: new_calls_trans(1) [OF c3 cs])
  qed
qed

section \<open>The state between two calls at the same instant\<close>

text \<open>
  The proof that a second call at the same instant changes little has two halves: a
  quiescent state is left as it is by a handler call, up to the continuous event, and the
  state that a handler call leaves is quiescent.
\<close>

section \<open>Keys that the state machine leaves alone\<close>










section \<open>Combos that the scan leaves alone\<close>







section \<open>After the first call\<close>


section \<open>What the first call leaves\<close>


section \<open>The second call\<close>




text \<open>
  Why the combos have to be separate. With keys A and B in two combos, the first call at
  tick 550 finds the window of the combo AB (opened at tick 400, 100 ms long) expired and
  discards it, while the combo ABX keeps both keys locked with their press events pending.
  The second call at tick 550 opens the window of AB anew, folds both pending presses into
  it and invokes the callback of AB.
\<close>

lemma repeat_triggers_overlapping_combo:
  "timeline_from overlap_sched two_combos = Some
     [(0, [], (KEY_EVENT_INIT, False), (KEY_EVENT_INIT, False), 0, 0),
      (50, [], (KEY_EVENT_INIT, False), (KEY_EVENT_INIT, False), 0, 0),
      (100, [], (KEY_EVENT_INIT, False), (KEY_EVENT_INIT, False), 0, 0),
      (150, [], (KEY_EVENT_INIT, False), (KEY_EVENT_INIT, False), 0, 0),
      (200, [], (KEY_EVENT_INIT, False), (KEY_EVENT_INIT, False), 0, 0),
      (250, [], (KEY_EVENT_INIT, False), (KEY_EVENT_INIT, False), 0, 0),
      (300, [], (KEY_EVENT_INIT, False), (KEY_EVENT_INIT, False), 0, 0),
      (350, [], (KEY_EVENT_INIT, False), (KEY_EVENT_INIT, False), 0, 0),
      (400, [], (KEY_EVENT_PRESSED, True), (KEY_EVENT_INIT, True), 400, 1),
      (450, [], (KEY_EVENT_PRESSED, True), (KEY_EVENT_INIT, True), 400, 1),
      (500, [], (KEY_EVENT_PRESSED, True), (KEY_EVENT_INIT, True), 400, 1),
      (550, [], (KEY_EVENT_PRESSED, True), (KEY_EVENT_PRESSED, True), 0, 0),
      (550, [Comb_call 550 1 21 None], (KEY_EVENT_INIT, True), (KEY_EVENT_INIT, True), 0, 0)]"
  by (simp add: model_defs boot_def zero_key_def zero_comb_def two_keys_def three_keys_def
      two_combos_def NN_Combo_SetWindowTime_def add_rest.simps pins_150_def overlap_sched_def
      timeline_from_def row_of_def new_calls_def eval_simps)

text \<open>
  Why the keys have to be timed. A key in \<open>KEY_STATE_UNKNOWN\<close> is moved to the initial
  state by the first call and out of it by the second. With a long-press threshold of 0 a
  key that the first call moves to the pressed state is moved on to the long-press state by
  the second; with a multi-click gap of 0 a key that the first call moves to the
  multi-click state is moved on to the released state by the second.
\<close>

lemma unknown_state_takes_two_calls:
  "state k = KEY_STATE_UNKNOWN \<Longrightarrow>
   state (state_switch k tick v) = KEY_STATE_INIT \<and>
   state (state_switch (state_switch k tick v) tick v) =
     (if v then KEY_STATE_PRESSED else KEY_STATE_RELEASED)"
  by (simp add: state_switch_def Let_def)

lemma zero_long_time_takes_two_calls:
  "state k = KEY_STATE_RELEASED \<Longrightarrow> long_time k = 0 \<Longrightarrow> long_alws_time k \<noteq> 0 \<Longrightarrow>
   ucast (debounce_time k) \<le> tick - key_last_time k \<Longrightarrow>
   state (state_switch k tick True) = KEY_STATE_PRESSED \<and>
   state (state_switch (state_switch k tick True) tick True) = KEY_STATE_LONG_PRESSED"
  by (simp add: state_switch_def Let_def ucast_threshold_eq_0 word_greater_zero_iff)

lemma zero_multi_time_takes_two_calls:
  "state k = KEY_STATE_PRESSED \<Longrightarrow> multi_time k = 0 \<Longrightarrow>
   tick - key_last_time k < ucast (long_time k) \<Longrightarrow>
   state (state_switch k tick False) = KEY_STATE_MULTI_PRESSED \<and>
   state (state_switch (state_switch k tick False) tick False) = KEY_STATE_RELEASED"
  by (simp add: state_switch_def Let_def not_le)

end
